theory Spec2Isabelle
  imports Main "HOL-Library.FSet"
begin

section \<open>Data model of the network graph\<close>

text \<open>
  The graph module (network_graph.cpp) works on layers held through shared pointers: the
  caller's layer vector and the graph's nodes refer to the same layer objects, and the
  realization passes mutate a layer through one reference and read it through another.
  The model therefore keeps an explicit store (\<open>heap\<close>): a layer pointer is an index into
  it, and a freshly created layer is appended to it.
\<close>

datatype ActivationType =
  ACT_TANH | ACT_SIGMOID | ACT_RELU | ACT_SOFTMAX | ACT_NONE | ACT_UNKNOWN

datatype LossType =
  LOSS_MSE | LOSS_ENTROPY | LOSS_ENTROPY_SIGMOID | LOSS_ENTROPY_SOFTMAX | LOSS_NONE | LOSS_UNKNOWN

text \<open>The integer status codes returned by the realization functions.\<close>

datatype status = ML_ERROR_NONE | ML_ERROR_INVALID_PARAMETER | ML_ERROR_NOT_SUPPORTED

text \<open>
  The C++ exceptions thrown by the module, and \<open>undefined_behaviour\<close> for an access
  outside a container (which C++ leaves undefined).
\<close>

datatype exn = invalid_argument | runtime_error | undefined_behaviour

text \<open>
  The fields of a layer that the graph module reads or writes. A tensor dimension is
  represented by its data length (\<open>getDataLen\<close>), the only thing the module asks of it.
\<close>

record Layer =
  name :: string
  ltype :: string
  input_layers :: "string list"
  output_layers :: "string list"
  num_inputs :: nat
  num_outputs :: nat
  input_dim :: "nat list"
  output_dim :: "nat list"
  activation_type :: ActivationType
  flatten :: bool
  trainable :: bool
  loss_type :: LossType

record LayerNode =
  layer :: nat
  index :: nat

text \<open>
  The two sharing rules of the in-place pass. The tensors belong to the tensor engine;
  the pass is modelled by the decisions it takes: which node shares storage with which
  output slot of which predecessor, and under which rule.
\<close>

datatype alias_kind = Alias_BatchNormalization | Alias_Activation

record alias_record =
  a_node :: LayerNode
  a_prev :: LayerNode
  a_loc :: nat
  a_kind :: alias_kind

text \<open>
  The members of NetworkGraph, together with the layer store. \<open>adj\<close> is the vector of
  adjacency lists; the first element of each list is the node itself. \<open>aliased\<close> is the
  sequence of sharing decisions applied by the in-place pass, and \<open>untracked\<close> the
  sequence of layer names passed to the storage manager's \<open>untrackLayerInOuts\<close>.
\<close>

record NetworkGraph =
  heap :: "Layer list"
  adj :: "LayerNode list list"
  num_node :: nat
  Sorted :: "LayerNode list"
  layer_names :: "string fset"
  def_name_count :: nat
  skip_non_trainable_layers :: nat
  aliased :: "alias_record list"
  untracked :: "string list"

definition heap_upd :: "nat \<Rightarrow> (Layer \<Rightarrow> Layer) \<Rightarrow> NetworkGraph \<Rightarrow> NetworkGraph" where
  "heap_upd a f g = g\<lparr>heap := (heap g)[a := f (heap g ! a)]\<rparr>"

definition alloc :: "Layer \<Rightarrow> NetworkGraph \<Rightarrow> nat \<times> NetworkGraph" where
  "alloc l g = (length (heap g), g\<lparr>heap := heap g @ [l]\<rparr>)"

text \<open>\<open>std::vector::resize\<close> on a vector of dimensions: new entries are empty dimensions.\<close>

definition resize :: "nat \<Rightarrow> nat list \<Rightarrow> nat list" where
  "resize n xs = take n xs @ replicate (n - length xs) 0"

text \<open>Subtraction on \<open>unsigned int\<close> (32 bits): \<open>num_node - 1\<close> wraps around at zero.\<close>

definition uint_sub :: "nat \<Rightarrow> nat \<Rightarrow> nat" where
  "uint_sub a b = (if b \<le> a then a - b else a + 2 ^ 32 - b)"

subsection \<open>Parts of the repository outside the graph module\<close>

text \<open>
  Modelled from the spec: the layer type tags (\<open>ActivationLayer::type\<close> and its siblings)
  are declared in the layer implementation files, which are not part of the graph module.
  The spec (section 4.2, 4.5) only distinguishes the kinds; the graph module itself writes
  the activation tag as the literal "activation". Nothing below depends on the spelling
  of a tag, only on the tags being different.
\<close>

definition ActivationLayer_type :: string where "ActivationLayer_type = ''activation''"
definition AdditionLayer_type :: string where "AdditionLayer_type = ''addition''"
definition BatchNormalizationLayer_type :: string where
  "BatchNormalizationLayer_type = ''batch_normalization''"
definition ConcatLayer_type :: string where "ConcatLayer_type = ''concat''"
definition FlattenLayer_type :: string where "FlattenLayer_type = ''flatten''"
definition InputLayer_type :: string where "InputLayer_type = ''input''"
definition LossLayer_type :: string where "LossLayer_type = ''loss''"
definition OutputLayer_type :: string where "OutputLayer_type = ''output''"

text \<open>
  Modelled from the spec: the layer constructor behind \<open>createLayer\<close> and
  \<open>std::make_unique<LossLayer>\<close> (layer_factory.h, layer_internal.h) is not part of the graph
  module. Section 3 and 6 of the spec describe an operator as a name, a type tag, ordered
  input and output name lists with their counts, dimensions and flags; section 4.2 says
  an inserted adapter consumes and produces one value unless the realizer sets it
  otherwise. A new layer has no name, no declared peers, one input and one output slot.
\<close>

definition createLayer :: "string \<Rightarrow> Layer" where
  "createLayer t =
     \<lparr>name = [], ltype = t, input_layers = [], output_layers = [],
      num_inputs = 1, num_outputs = 1, input_dim = [0], output_dim = [0],
      activation_type = ACT_NONE, flatten = False, trainable = True,
      loss_type = LOSS_UNKNOWN\<rparr>"

text \<open>
  Modelled from the spec: \<open>Layer::setName\<close> (section 6: the name of an operator can be read
  and set) is not part of the graph module; the graph module ignores its return value.
\<close>

definition setName :: "nat \<Rightarrow> string \<Rightarrow> NetworkGraph \<Rightarrow> NetworkGraph" where
  "setName a n g = heap_upd a (\<lambda>l. l\<lparr>name := n\<rparr>) g"

text \<open>
  Modelled from the spec: \<open>LossLayer::setLoss\<close> is not part of the graph module. Section 4.2
  (terminal attachment) says the loss node records the loss kind; an unknown kind is
  refused with a configuration error.
\<close>

definition setLoss :: "nat \<Rightarrow> LossType \<Rightarrow> NetworkGraph \<Rightarrow> status \<times> NetworkGraph" where
  "setLoss a l g =
     (if l = LOSS_UNKNOWN then (ML_ERROR_INVALID_PARAMETER, g)
      else (ML_ERROR_NONE, heap_upd a (\<lambda>x. x\<lparr>loss_type := l\<rparr>) g))"

text \<open>
  Modelled from the spec: \<open>istrequal\<close> (parse_util) is not part of the graph module. The
  spec (section 3, name registry) says that lookups are case-insensitive: two strings are
  equal when they agree after lowering the ASCII capitals.
\<close>

definition tolower :: "char \<Rightarrow> char" where
  "tolower c =
     (let n = (of_char c :: nat) in if 65 \<le> n \<and> n \<le> 90 then char_of (n + 32) else c)"

definition istrequal :: "string \<Rightarrow> string \<Rightarrow> bool" where
  "istrequal a b = (map tolower a = map tolower b)"

text \<open>\<open>std::to_string\<close> on the name counter: the decimal digits.\<close>

definition digit_char :: "nat \<Rightarrow> char" where
  "digit_char d =
     (if d = 0 then CHR ''0'' else if d = 1 then CHR ''1'' else if d = 2 then CHR ''2''
      else if d = 3 then CHR ''3'' else if d = 4 then CHR ''4'' else if d = 5 then CHR ''5''
      else if d = 6 then CHR ''6'' else if d = 7 then CHR ''7'' else if d = 8 then CHR ''8''
      else CHR ''9'')"

function to_string :: "nat \<Rightarrow> string" where
  "to_string n =
     (if n < 10 then [digit_char n] else to_string (n div 10) @ [digit_char (n mod 10)])"
  by pat_completeness auto
termination
  by (relation "measure id") auto

declare to_string.simps [simp del]

definition digit_val :: "char \<Rightarrow> nat" where
  "digit_val c = of_char c - 48"

definition from_string :: "string \<Rightarrow> nat" where
  "from_string s = foldl (\<lambda>acc c. 10 * acc + digit_val c) 0 s"

lemma digit_val_digit_char: "d < 10 \<Longrightarrow> digit_val (digit_char d) = d"
  by (simp add: digit_char_def digit_val_def)

lemma from_string_to_string: "from_string (to_string n) = n"
proof (induction n rule: to_string.induct)
  case (1 n)
  show ?case
  proof (cases "n < 10")
    case True
    then show ?thesis
      by (subst to_string.simps) (simp add: from_string_def digit_val_digit_char)
  next
    case False
    with 1 have ih: "from_string (to_string (n div 10)) = n div 10"
      by simp
    have "from_string (to_string n) =
            10 * from_string (to_string (n div 10)) + digit_val (digit_char (n mod 10))"
      using False by (subst to_string.simps) (simp add: from_string_def)
    then show ?thesis
      using ih by (simp add: digit_val_digit_char)
  qed
qed

lemma to_string_inj: "to_string a = to_string b \<Longrightarrow> a = b"
  by (metis from_string_to_string)

section \<open>The name registry\<close>

text \<open>
  The \<open>do ... while\<close> loop of \<open>ensureName\<close>: build \<open>direct_name + to_string(count++)\<close>
  until the result is not found in \<open>layer_names\<close>. The counter is taken as unbounded.
  The loop ends because the set of names is finite and the decimal rendering is injective.
\<close>

function ensureName_loop :: "string fset \<Rightarrow> string \<Rightarrow> nat \<Rightarrow> string \<times> nat" where
  "ensureName_loop names direct_name c =
     (let nm = direct_name @ to_string c in
      if nm |\<in>| names then ensureName_loop names direct_name (Suc c) else (nm, Suc c))"
  by pat_completeness auto
termination
proof (relation "measure (\<lambda>(names, direct_name, c).
         card {k. c \<le> k \<and> direct_name @ to_string k |\<in>| names})")
  show "wf (measure (\<lambda>(names, direct_name, c).
         card {k. c \<le> k \<and> direct_name @ to_string k |\<in>| names}))"
    by simp
next
  fix names :: "string fset" and direct_name :: string and c :: nat and nm :: string
  assume nm: "nm = direct_name @ to_string c" and mem: "nm |\<in>| names"
  let ?A = "\<lambda>c. {k. c \<le> k \<and> direct_name @ to_string k |\<in>| names}"
  have inj: "inj_on (\<lambda>k. direct_name @ to_string k) (?A c)"
    by (auto simp: inj_on_def dest: to_string_inj)
  have "(\<lambda>k. direct_name @ to_string k) ` ?A c \<subseteq> fset names"
    by auto
  then have fin: "finite (?A c)"
    using inj finite_fset finite_imageD finite_subset by blast
  have "c \<in> ?A c" and "c \<notin> ?A (Suc c)" and "?A (Suc c) \<subseteq> ?A c"
    using nm mem by auto
  then have "?A (Suc c) \<subset> ?A c"
    by blast
  then have "card (?A (Suc c)) < card (?A c)"
    using fin by (rule psubset_card_mono[rotated])
  then show "((names, direct_name, Suc c), (names, direct_name, c))
      \<in> measure (\<lambda>(names, direct_name, c).
            card {k. c \<le> k \<and> direct_name @ to_string k |\<in>| names})"
    by simp
qed

declare ensureName_loop.simps [simp del]

definition ensureName :: "nat \<Rightarrow> string \<Rightarrow> bool \<Rightarrow> NetworkGraph \<Rightarrow> NetworkGraph" where
  "ensureName a prefix force_rename g =
     (let orig_name = name (heap g ! a);
          orig_name_empty = (orig_name = [])
      in if \<not> orig_name_empty \<and> \<not> force_rename \<and> orig_name |\<notin>| layer_names g then g
         else if \<not> orig_name_empty \<and> (prefix @ orig_name) |\<notin>| layer_names g
           then setName a (prefix @ orig_name) g
         else
           let base = (if orig_name_empty then ltype (heap g ! a) else orig_name);
               direct_name = prefix @ base;
               r = ensureName_loop (layer_names g) direct_name (def_name_count g)
           in setName a (fst r) (g\<lparr>def_name_count := snd r\<rparr>))"

section \<open>Nodes\<close>

text \<open>
  \<open>getLayerNode(unsigned int)\<close>: scan the first \<open>num_node\<close> adjacency lists for the one
  whose head carries the index; throw when there is none.
\<close>

fun getLayerNode_loop :: "LayerNode list list \<Rightarrow> nat \<Rightarrow> nat \<Rightarrow> exn + LayerNode" where
  "getLayerNode_loop ls 0 ith = Inl invalid_argument"
| "getLayerNode_loop [] (Suc n) ith = Inl undefined_behaviour"
| "getLayerNode_loop ([] # ls) (Suc n) ith = Inl undefined_behaviour"
| "getLayerNode_loop ((x # xs) # ls) (Suc n) ith =
     (if index x = ith then Inr x else getLayerNode_loop ls n ith)"

definition getLayerNode :: "NetworkGraph \<Rightarrow> nat \<Rightarrow> exn + LayerNode" where
  "getLayerNode g ith = getLayerNode_loop (adj g) (num_node g) ith"

definition addLayerNode :: "nat \<Rightarrow> NetworkGraph \<Rightarrow> NetworkGraph" where
  "addLayerNode a g =
     (let g1 = ensureName a [] False g;
          node = \<lparr>layer = a, index = num_node g1\<rparr>
      in g1\<lparr>adj := adj g1 @ [[node]], num_node := Suc (num_node g1)\<rparr>)"

section \<open>Counting the leading non-trainable layers\<close>

fun countNonTrainable_loop :: "Layer list \<Rightarrow> LayerNode list \<Rightarrow> nat \<Rightarrow> nat \<Rightarrow> nat" where
  "countNonTrainable_loop h [] i skip = skip"
| "countNonTrainable_loop h (n # ns) i skip =
     (if trainable (h ! layer n) then i else countNonTrainable_loop h ns (Suc i) skip)"

definition countNonTrainableLayersAtBegin :: "NetworkGraph \<Rightarrow> NetworkGraph" where
  "countNonTrainableLayersAtBegin g =
     g\<lparr>skip_non_trainable_layers :=
          countNonTrainable_loop (heap g) (Sorted g) 0 (skip_non_trainable_layers g)\<rparr>"

section \<open>Terminal attachment of the loss layer\<close>

text \<open>Lines 313 to 339 of \<open>addLossLayer\<close>: create the loss layer and append it.\<close>

definition addLossLayer_attach :: "LossType \<Rightarrow> NetworkGraph \<Rightarrow> exn + (status \<times> NetworkGraph)" where
  "addLossLayer_attach updated_loss_type g =
     (case getLayerNode g (uint_sub (num_node g) 1) of
        Inl e \<Rightarrow> Inl e
      | Inr n \<Rightarrow>
          let input_str = name (heap g ! layer n);
              (a, g1) = alloc (createLayer LossLayer_type) g;
              g2 = ensureName a [] False g1
          in (case getLayerNode g2 (uint_sub (num_node g2) 1) of
                Inl e \<Rightarrow> Inl e
              | Inr last_node \<Rightarrow>
                  let g3 = heap_upd (layer last_node)
                             (\<lambda>l. l\<lparr>num_outputs := 1, output_layers := [name (heap g2 ! a)]\<rparr>) g2;
                      g4 = heap_upd a (\<lambda>l. l\<lparr>num_inputs := 1, input_layers := [input_str]\<rparr>) g3;
                      g5 = (if length (output_layers (heap g4 ! a)) = 0
                            then heap_upd a
                                   (\<lambda>l. l\<lparr>num_outputs := 1, output_dim := resize 1 (output_dim l),
                                          output_layers := output_layers l @ [''__exit__'']\<rparr>) g4
                            else g4);
                      (st, g6) = setLoss a updated_loss_type g5
                  in if st \<noteq> ML_ERROR_NONE then Inr (st, g6)
                     else Inr (ML_ERROR_NONE, addLayerNode a g6)))"

definition addLossLayer :: "LossType \<Rightarrow> NetworkGraph \<Rightarrow> exn + (status \<times> NetworkGraph)" where
  "addLossLayer loss_kind g =
     (if num_node g = 0 then Inr (ML_ERROR_INVALID_PARAMETER, g)
      else if loss_kind = LOSS_ENTROPY then
        (case getLayerNode g (uint_sub (num_node g) 1) of
           Inl e \<Rightarrow> Inl e
         | Inr last_n \<Rightarrow>
             if ltype (heap g ! layer last_n) \<noteq> ''activation''
             then Inr (ML_ERROR_NOT_SUPPORTED, g)
             else
               (case getLayerNode g (uint_sub (num_node g) 1) of
                  Inl e \<Rightarrow> Inl e
                | Inr act_layer_node \<Rightarrow>
                    let g1 = g\<lparr>adj := butlast (adj g), num_node := uint_sub (num_node g) 1\<rparr>
                    in (case activation_type (heap g1 ! layer act_layer_node) of
                          ACT_SIGMOID \<Rightarrow> addLossLayer_attach LOSS_ENTROPY_SIGMOID g1
                        | ACT_SOFTMAX \<Rightarrow> addLossLayer_attach LOSS_ENTROPY_SOFTMAX g1
                        | _ \<Rightarrow> Inr (ML_ERROR_NOT_SUPPORTED, g1))))
      else addLossLayer_attach loss_kind g)"

section \<open>Edge resolution\<close>

text \<open>
  \<open>getLayerNode(const std::string &)\<close>: the first node whose layer name equals the given
  name, compared without regard to case.
\<close>

fun getLayerNode_name_loop :: "Layer list \<Rightarrow> LayerNode list list \<Rightarrow> string \<Rightarrow> exn + LayerNode" where
  "getLayerNode_name_loop h [] layer_name = Inl invalid_argument"
| "getLayerNode_name_loop h ([] # ls) layer_name = Inl undefined_behaviour"
| "getLayerNode_name_loop h ((x # xs) # ls) layer_name =
     (if istrequal (name (h ! layer x)) layer_name then Inr x
      else getLayerNode_name_loop h ls layer_name)"

definition getLayerNode_name :: "NetworkGraph \<Rightarrow> string \<Rightarrow> exn + LayerNode" where
  "getLayerNode_name g layer_name = getLayerNode_name_loop (heap g) (adj g) layer_name"

definition addEdge :: "nat \<Rightarrow> LayerNode \<Rightarrow> NetworkGraph \<Rightarrow> exn + NetworkGraph" where
  "addEdge ith n g =
     (if ith > uint_sub (num_node g) 1 then Inl invalid_argument
      else if ith < length (adj g) then Inr (g\<lparr>adj := (adj g)[ith := adj g ! ith @ [n]]\<rparr>)
      else Inl undefined_behaviour)"

text \<open>The inner loop of \<open>setEdge\<close> over the input names of one node.\<close>

fun setEdge_inputs :: "LayerNode \<Rightarrow> string list \<Rightarrow> NetworkGraph \<Rightarrow> exn + NetworkGraph" where
  "setEdge_inputs n [] g = Inr g"
| "setEdge_inputs n (x # xs) g =
     (if istrequal x ''__data__'' then setEdge_inputs n xs g
      else
        (case getLayerNode_name g x of
           Inl e \<Rightarrow> Inl e
         | Inr p \<Rightarrow>
             (case addEdge (index p) n g of
                Inl e \<Rightarrow> Inl e
              | Inr g' \<Rightarrow> setEdge_inputs n xs g')))"

text \<open>The outer loop of \<open>setEdge\<close>: position \<open>i\<close>, with \<open>k\<close> positions left.\<close>

fun setEdge_loop :: "nat \<Rightarrow> nat \<Rightarrow> NetworkGraph \<Rightarrow> exn + NetworkGraph" where
  "setEdge_loop i 0 g = Inr g"
| "setEdge_loop i (Suc k) g =
     (if i \<ge> length (adj g) then Inl undefined_behaviour
      else
        (case adj g ! i of
           [] \<Rightarrow> Inl undefined_behaviour
         | n # _ \<Rightarrow>
             (case input_dim (heap g ! layer n) of
                [] \<Rightarrow> Inl undefined_behaviour
              | d # _ \<Rightarrow>
                  if d \<noteq> 0 then setEdge_loop (Suc i) k g
                  else
                    (case setEdge_inputs n (input_layers (heap g ! layer n)) g of
                       Inl e \<Rightarrow> Inl e
                     | Inr g' \<Rightarrow> setEdge_loop (Suc i) k g'))))"

definition setEdge :: "NetworkGraph \<Rightarrow> exn + NetworkGraph" where
  "setEdge g = setEdge_loop 0 (length (adj g)) g"

section \<open>Topological sort\<close>

text \<open>
  \<open>topologicalSortUtil\<close> is a recursive depth-first visit. The recursion is bounded by a
  fuel argument, which counts the depth of the recursion; \<open>None\<close> means that the fuel ran
  out. The state is the \<open>visited\<close> vector and the stack (top first).
\<close>

type_synonym dfs_state = "bool list \<times> LayerNode list"

fun topologicalSortUtil :: "nat \<Rightarrow> NetworkGraph \<Rightarrow> nat \<Rightarrow> dfs_state \<Rightarrow> (exn + dfs_state) option"
  and topologicalSortUtil_loop ::
    "nat \<Rightarrow> NetworkGraph \<Rightarrow> LayerNode list \<Rightarrow> dfs_state \<Rightarrow> (exn + dfs_state) option" where
  "topologicalSortUtil 0 g ith st = None"
| "topologicalSortUtil (Suc f) g ith (visited, Stack) =
     (if ith \<ge> length visited \<or> ith \<ge> length (adj g) then Some (Inl undefined_behaviour)
      else
        (case topologicalSortUtil_loop f g (adj g ! ith) (visited[ith := True], Stack) of
           None \<Rightarrow> None
         | Some (Inl e) \<Rightarrow> Some (Inl e)
         | Some (Inr (visited', Stack')) \<Rightarrow>
             (case getLayerNode g ith of
                Inl e \<Rightarrow> Some (Inl e)
              | Inr n \<Rightarrow> Some (Inr (visited', n # Stack')))))"
| "topologicalSortUtil_loop f g [] st = Some (Inr st)"
| "topologicalSortUtil_loop f g (n # ns) (visited, Stack) =
     (if index n \<ge> length visited then Some (Inl undefined_behaviour)
      else if \<not> visited ! index n then
        (case topologicalSortUtil f g (index n) (visited, Stack) of
           None \<Rightarrow> None
         | Some (Inl e) \<Rightarrow> Some (Inl e)
         | Some (Inr st') \<Rightarrow> topologicalSortUtil_loop f g ns st')
      else topologicalSortUtil_loop f g ns (visited, Stack))"

text \<open>The loop of \<open>topologicalSort\<close> over all node indices: index \<open>i\<close>, \<open>k\<close> indices left.\<close>

fun topologicalSort_loop ::
  "nat \<Rightarrow> NetworkGraph \<Rightarrow> nat \<Rightarrow> nat \<Rightarrow> dfs_state \<Rightarrow> (exn + dfs_state) option" where
  "topologicalSort_loop f g i 0 st = Some (Inr st)"
| "topologicalSort_loop f g i (Suc k) (visited, Stack) =
     (if i \<ge> length visited then Some (Inl undefined_behaviour)
      else if visited ! i = False then
        (case topologicalSortUtil f g i (visited, Stack) of
           None \<Rightarrow> None
         | Some (Inl e) \<Rightarrow> Some (Inl e)
         | Some (Inr st') \<Rightarrow> topologicalSort_loop f g (Suc i) k st')
      else topologicalSort_loop f g (Suc i) k (visited, Stack))"

text \<open>
  \<open>topologicalSort\<close>: visit every node, drain the stack from the top into \<open>Sorted\<close>, then
  count the leading non-trainable layers.
\<close>

definition topologicalSort :: "nat \<Rightarrow> NetworkGraph \<Rightarrow> (exn + NetworkGraph) option" where
  "topologicalSort fuel g =
     (case topologicalSort_loop fuel g 0 (num_node g) (replicate (num_node g) False, []) of
        None \<Rightarrow> None
      | Some (Inl e) \<Rightarrow> Some (Inl e)
      | Some (Inr (visited, Stack)) \<Rightarrow>
          Some (Inr (countNonTrainableLayersAtBegin (g\<lparr>Sorted := Sorted g @ Stack\<rparr>))))"

section \<open>Graph realization\<close>

text \<open>
  \<open>updateNameInLayers\<close>: replace the first input name, in the first layer that has one,
  that equals \<open>cname\<close> without regard to case; then return.
\<close>

fun replace_first :: "string \<Rightarrow> string \<Rightarrow> string list \<Rightarrow> string list option" where
  "replace_first cname nm [] = None"
| "replace_first cname nm (x # xs) =
     (if istrequal x cname then Some (nm # xs)
      else map_option ((#) x) (replace_first cname nm xs))"

fun updateNameInLayers :: "nat list \<Rightarrow> string \<Rightarrow> string \<Rightarrow> NetworkGraph \<Rightarrow> NetworkGraph" where
  "updateNameInLayers [] cname nm g = g"
| "updateNameInLayers (a # as) cname nm g =
     (case replace_first cname nm (input_layers (heap g ! a)) of
        Some ins \<Rightarrow> heap_upd a (\<lambda>l. l\<lparr>input_layers := ins\<rparr>) g
      | None \<Rightarrow> updateNameInLayers as cname nm g)"

text \<open>
  \<open>setOutputLayers\<close>, innermost loop: for layer \<open>a\<close> (index \<open>idx\<close>) and another layer \<open>b\<close>
  (index \<open>i\<close>), every input name of \<open>b\<close> that equals the name of \<open>a\<close> appends the name of \<open>b\<close>
  to the outputs of \<open>a\<close>. The loop over \<open>k\<close> in the source has no effect.
\<close>

fun setOutputLayers_j :: "nat \<Rightarrow> nat \<Rightarrow> string list \<Rightarrow> NetworkGraph \<Rightarrow> NetworkGraph" where
  "setOutputLayers_j a b [] g = g"
| "setOutputLayers_j a b (x # xs) g =
     setOutputLayers_j a b xs
       (if istrequal x (name (heap g ! a))
        then heap_upd a (\<lambda>l. l\<lparr>output_layers := output_layers l @ [name (heap g ! b)]\<rparr>) g
        else g)"

fun setOutputLayers_i :: "nat \<Rightarrow> nat list \<Rightarrow> NetworkGraph \<Rightarrow> NetworkGraph" where
  "setOutputLayers_i a [] g = g"
| "setOutputLayers_i a (b # bs) g =
     setOutputLayers_i a bs
       (if istrequal (name (heap g ! b)) (name (heap g ! a)) then g
        else setOutputLayers_j a b (input_layers (heap g ! b)) g)"

fun setOutputLayers_idx :: "nat list \<Rightarrow> nat list \<Rightarrow> NetworkGraph \<Rightarrow> NetworkGraph" where
  "setOutputLayers_idx layers [] g = g"
| "setOutputLayers_idx layers (a # as) g =
     (let g1 = setOutputLayers_i a layers g;
          g2 = (if num_outputs (heap g1 ! a) \<noteq> length (output_layers (heap g1 ! a))
                then heap_upd a
                       (\<lambda>l. l\<lparr>num_outputs := length (output_layers l),
                              output_dim := resize (length (output_layers l)) (output_dim l)\<rparr>) g1
                else g1)
      in setOutputLayers_idx layers as g2)"

definition setOutputLayers :: "nat list \<Rightarrow> NetworkGraph \<Rightarrow> exn + NetworkGraph" where
  "setOutputLayers layers g =
     (if layers = [] then Inl undefined_behaviour
      else
        let g1 = setOutputLayers_idx layers layers g;
            b = last layers;
            g2 = (if num_outputs (heap g1 ! b) = 0
                  then heap_upd b
                         (\<lambda>l. l\<lparr>num_outputs := 1, output_dim := resize 1 (output_dim l),
                                output_layers := output_layers l @ [''__exit__'']\<rparr>) g1
                  else g1)
        in if \<exists>a \<in> set layers. length (output_layers (heap g2 ! a)) = 0
           then Inl invalid_argument else Inr g2)"

definition realizeMultiInputType :: "nat \<Rightarrow> NetworkGraph \<Rightarrow> status \<times> NetworkGraph" where
  "realizeMultiInputType current g =
     (if num_inputs (heap g ! current) = 1 then (ML_ERROR_NONE, g)
      else
        let (a, g1) = alloc (createLayer AdditionLayer_type) g;
            g2 = ensureName a (name (heap g1 ! current)) False g1;
            g3 = heap_upd a
                   (\<lambda>l. l\<lparr>num_inputs := num_inputs (heap g2 ! current),
                          input_dim := resize (num_inputs (heap g2 ! current)) (input_dim l),
                          input_layers := input_layers (heap g2 ! current)\<rparr>) g2;
            g4 = heap_upd current
                   (\<lambda>l. l\<lparr>num_inputs := 1, input_layers := [name (heap g3 ! a)]\<rparr>) g3
        in (ML_ERROR_NONE, addLayerNode a g4))"

definition realizeFlattenType :: "nat \<Rightarrow> nat list \<Rightarrow> NetworkGraph \<Rightarrow> status \<times> NetworkGraph" where
  "realizeFlattenType current layers g =
     (if num_node g = 0 then (ML_ERROR_INVALID_PARAMETER, g)
      else if ltype (heap g ! current) = FlattenLayer_type then (ML_ERROR_INVALID_PARAMETER, g)
      else
        let (a, g1) = alloc (createLayer FlattenLayer_type) g;
            g2 = ensureName a (name (heap g1 ! current)) False g1;
            g3 = heap_upd a
                   (\<lambda>l. l\<lparr>num_inputs := 1, input_layers := [name (heap g2 ! current)]\<rparr>) g2
        in (ML_ERROR_NONE, addLayerNode a g3))"

text \<open>
  \<open>realizeActivationType\<close>. The copy of the declared outputs reads
  \<open>current.output_layers[i]\<close> for \<open>i < current.num_outputs\<close>; reading past the end of the
  vector is undefined in C++.
\<close>

definition realizeActivationType ::
  "nat \<Rightarrow> nat list \<Rightarrow> NetworkGraph \<Rightarrow> exn + (status \<times> NetworkGraph)" where
  "realizeActivationType current layers g =
     (let act = activation_type (heap g ! current) in
      if act = ACT_NONE then Inr (ML_ERROR_NONE, g)
      else if num_node g = 0 then Inr (ML_ERROR_INVALID_PARAMETER, g)
      else if ltype (heap g ! current) = ActivationLayer_type
        then Inr (ML_ERROR_INVALID_PARAMETER, g)
      else if act = ACT_UNKNOWN then Inr (ML_ERROR_INVALID_PARAMETER, g)
      else
        let (a, g1) = alloc (createLayer ''activation'') g;
            g2 = ensureName a (name (heap g1 ! current)) False g1;
            g3 = heap_upd a
                   (\<lambda>l. l\<lparr>activation_type := act, num_inputs := 1,
                          input_layers := [name (heap g2 ! current)]\<rparr>) g2
        in if num_outputs (heap g3 ! current) \<noteq> 1 then Inr (ML_ERROR_INVALID_PARAMETER, g3)
           else if length (output_layers (heap g3 ! current)) < num_outputs (heap g3 ! current)
             then Inl undefined_behaviour
           else
             let g4 = heap_upd a
                        (\<lambda>l. l\<lparr>num_outputs := num_outputs (heap g3 ! current),
                               output_dim := resize (num_outputs (heap g3 ! current)) (output_dim l),
                               output_layers :=
                                 take (num_outputs (heap g3 ! current))
                                   (output_layers (heap g3 ! current))\<rparr>) g3;
                 g5 = heap_upd current
                        (\<lambda>l. l\<lparr>num_outputs := 1, output_layers := [name (heap g4 ! a)]\<rparr>) g4;
                 g6 = addLayerNode a g5
             in Inr (ML_ERROR_NONE,
                     updateNameInLayers layers (name (heap g6 ! current)) (name (heap g6 ! a)) g6))"

text \<open>
  The loop of \<open>realizeMultiOutputType\<close> over the declared outputs of \<open>current\<close>: each
  output is copied to the new layer and one reference to \<open>current\<close> is renamed.
\<close>

fun realizeMultiOutputType_loop ::
  "nat \<Rightarrow> nat \<Rightarrow> nat list \<Rightarrow> string list \<Rightarrow> NetworkGraph \<Rightarrow> NetworkGraph" where
  "realizeMultiOutputType_loop a current layers [] g = g"
| "realizeMultiOutputType_loop a current layers (x # xs) g =
     (let g1 = heap_upd a (\<lambda>l. l\<lparr>output_layers := output_layers l @ [x]\<rparr>) g
      in realizeMultiOutputType_loop a current layers xs
           (updateNameInLayers layers (name (heap g1 ! current)) (name (heap g1 ! a)) g1))"

definition realizeMultiOutputType :: "nat \<Rightarrow> nat list \<Rightarrow> NetworkGraph \<Rightarrow> status \<times> NetworkGraph" where
  "realizeMultiOutputType current layers g =
     (if num_outputs (heap g ! current) = 1 then (ML_ERROR_NONE, g)
      else
        let (a, g1) = alloc (createLayer OutputLayer_type) g;
            g2 = ensureName a (name (heap g1 ! current)) False g1;
            g3 = heap_upd a
                   (\<lambda>l. l\<lparr>num_inputs := 1, input_layers := [name (heap g2 ! current)],
                          num_outputs := num_outputs (heap g2 ! current), output_layers := []\<rparr>) g2;
            g4 = realizeMultiOutputType_loop a current layers
                   (output_layers (heap g3 ! current)) g3;
            g5 = heap_upd current
                   (\<lambda>l. l\<lparr>num_outputs := 1, output_layers := [name (heap g4 ! a)]\<rparr>) g4
        in (ML_ERROR_NONE, addLayerNode a g5))"

text \<open>
  The macro \<open>NN_RETURN_STATUS\<close>: return the status at once when it is not
  \<open>ML_ERROR_NONE\<close>, otherwise go on with the rest of the function.
\<close>

definition NN_RETURN_STATUS ::
  "exn + (status \<times> NetworkGraph) \<Rightarrow> (NetworkGraph \<Rightarrow> exn + (status \<times> NetworkGraph))
     \<Rightarrow> exn + (status \<times> NetworkGraph)" where
  "NN_RETURN_STATUS r rest =
     (case r of
        Inl e \<Rightarrow> Inl e
      | Inr (st, g) \<Rightarrow> if st \<noteq> ML_ERROR_NONE then Inr (st, g) else rest g)"

text \<open>The body of the loop of \<open>setGraphNode\<close> for the layer \<open>a = layers[i]\<close>.\<close>

definition setGraphNode_step :: "nat list \<Rightarrow> nat \<Rightarrow> NetworkGraph \<Rightarrow> exn + (status \<times> NetworkGraph)" where
  "setGraphNode_step layers a g =
     (if length (input_layers (heap g ! a)) < 1 \<and> (\<exists>d \<in> set (input_dim (heap g ! a)). d = 0)
      then Inl invalid_argument
      else
        let g1 = (if length (input_layers (heap g ! a)) < 1
                  then heap_upd a (\<lambda>l. l\<lparr>num_inputs := 1, input_layers := [''__data__'']\<rparr>) g
                  else g)
        in NN_RETURN_STATUS
             (if ltype (heap g1 ! a) \<noteq> AdditionLayer_type \<and> ltype (heap g1 ! a) \<noteq> ConcatLayer_type
              then Inr (realizeMultiInputType a g1) else Inr (ML_ERROR_NONE, g1))
             (\<lambda>g2. let g3 = addLayerNode a g2 in
                NN_RETURN_STATUS
                  (if ltype (heap g3 ! a) \<noteq> ActivationLayer_type
                   then realizeActivationType a layers g3 else Inr (ML_ERROR_NONE, g3))
                  (\<lambda>g4. NN_RETURN_STATUS
                     (if ltype (heap g4 ! a) \<noteq> OutputLayer_type
                      then Inr (realizeMultiOutputType a layers g4) else Inr (ML_ERROR_NONE, g4))
                     (\<lambda>g5. if flatten (heap g5 ! a)
                            then Inr (realizeFlattenType a layers g5)
                            else Inr (ML_ERROR_NONE, g5)))))"

fun setGraphNode_loop :: "nat list \<Rightarrow> nat list \<Rightarrow> NetworkGraph \<Rightarrow> exn + (status \<times> NetworkGraph)" where
  "setGraphNode_loop layers [] g = Inr (ML_ERROR_NONE, g)"
| "setGraphNode_loop layers (a # as) g =
     NN_RETURN_STATUS (setGraphNode_step layers a g) (setGraphNode_loop layers as)"

definition setGraphNode :: "nat list \<Rightarrow> LossType \<Rightarrow> NetworkGraph \<Rightarrow> exn + (status \<times> NetworkGraph)" where
  "setGraphNode layers loss_kind g =
     (case setOutputLayers layers g of
        Inl e \<Rightarrow> Inl e
      | Inr g1 \<Rightarrow>
          NN_RETURN_STATUS (setGraphNode_loop layers layers g1)
            (\<lambda>g2. if ltype (heap g2 ! last layers) \<noteq> LossLayer_type \<and> loss_kind \<noteq> LOSS_NONE
                   then NN_RETURN_STATUS (addLossLayer loss_kind g2) (\<lambda>g3. Inr (ML_ERROR_NONE, g3))
                   else Inr (ML_ERROR_NONE, g2)))"

section \<open>In-place optimization\<close>

definition in_place_layers :: "string list" where
  "in_place_layers = [ActivationLayer_type, BatchNormalizationLayer_type]"

text \<open>
  The body of the loop of \<open>inPlaceOptimize(layer_type, manager)\<close> for one sorted node, up
  to the sharing itself: an exception, no sharing (\<open>None\<close>), or the sharing to apply.
\<close>

definition inPlaceOptimize_node :: "string \<Rightarrow> NetworkGraph \<Rightarrow> LayerNode \<Rightarrow> exn + alias_record option" where
  "inPlaceOptimize_node layer_type g n =
     (let l = heap g ! layer n in
      if ltype l = layer_type \<and> activation_type l \<noteq> ACT_SOFTMAX then
        if length (input_layers l) \<noteq> 1 then Inl runtime_error
        else
          (case getLayerNode_name g (input_layers l ! 0) of
             Inl e \<Rightarrow> Inl e
           | Inr pn \<Rightarrow>
               let prev_layer = heap g ! layer pn;
                   loc = length (takeWhile (\<lambda>x. x \<noteq> name l) (output_layers prev_layer))
               in if loc = length (output_layers prev_layer) then Inl runtime_error
                  else if ltype prev_layer = InputLayer_type then Inr None
                  else if ltype prev_layer \<in> set in_place_layers then Inr None
                  else if ltype l = BatchNormalizationLayer_type
                    then Inr (Some \<lparr>a_node = n, a_prev = pn, a_loc = loc,
                                     a_kind = Alias_BatchNormalization\<rparr>)
                  else if ltype l = ActivationLayer_type
                    then Inr (Some \<lparr>a_node = n, a_prev = pn, a_loc = loc,
                                     a_kind = Alias_Activation\<rparr>)
                  else Inl runtime_error)
      else Inr None)"

fun inPlaceOptimize_loop :: "string \<Rightarrow> LayerNode list \<Rightarrow> NetworkGraph \<Rightarrow> exn + NetworkGraph" where
  "inPlaceOptimize_loop layer_type [] g = Inr g"
| "inPlaceOptimize_loop layer_type (n # ns) g =
     (case inPlaceOptimize_node layer_type g n of
        Inl e \<Rightarrow> Inl e
      | Inr None \<Rightarrow> inPlaceOptimize_loop layer_type ns g
      | Inr (Some r) \<Rightarrow>
          inPlaceOptimize_loop layer_type ns
            (g\<lparr>aliased := aliased g @ [r],
               untracked := untracked g @ [name (heap g ! layer (a_prev r))]\<rparr>))"

definition inPlaceOptimize_type :: "string \<Rightarrow> NetworkGraph \<Rightarrow> exn + NetworkGraph" where
  "inPlaceOptimize_type layer_type g = inPlaceOptimize_loop layer_type (Sorted g) g"

fun inPlaceOptimize_types :: "string list \<Rightarrow> NetworkGraph \<Rightarrow> exn + NetworkGraph" where
  "inPlaceOptimize_types [] g = Inr g"
| "inPlaceOptimize_types (t # ts) g =
     (case inPlaceOptimize_type t g of
        Inl e \<Rightarrow> Inl e
      | Inr g' \<Rightarrow> inPlaceOptimize_types ts g')"

definition inPlaceOptimize :: "NetworkGraph \<Rightarrow> exn + NetworkGraph" where
  "inPlaceOptimize g = inPlaceOptimize_types in_place_layers g"

text \<open>The sharing decided for one sorted node in the pass for one layer type, if any.\<close>

definition alias_of :: "string \<Rightarrow> NetworkGraph \<Rightarrow> LayerNode \<Rightarrow> alias_record list" where
  "alias_of layer_type g n =
     (case inPlaceOptimize_node layer_type g n of Inr (Some r) \<Rightarrow> [r] | _ \<Rightarrow> [])"

section \<open>The build\<close>

text \<open>
  Modelled from the spec: the caller that runs the passes one after the other
  (neuralnet.cpp) is not part of the graph module. Section 2 of the spec gives the control
  flow: realization of the flat layer list, edge resolution, topological sort, in-place
  aliasing; section 7 says that every error aborts the build.
\<close>

definition build ::
  "nat \<Rightarrow> nat list \<Rightarrow> LossType \<Rightarrow> NetworkGraph \<Rightarrow> (exn + (status \<times> NetworkGraph)) option" where
  "build fuel layers loss_kind g =
     (case setGraphNode layers loss_kind g of
        Inl e \<Rightarrow> Some (Inl e)
      | Inr (st, g1) \<Rightarrow>
          if st \<noteq> ML_ERROR_NONE then Some (Inr (st, g1))
          else
            (case setEdge g1 of
               Inl e \<Rightarrow> Some (Inl e)
             | Inr g2 \<Rightarrow>
                 (case topologicalSort fuel g2 of
                    None \<Rightarrow> None
                  | Some (Inl e) \<Rightarrow> Some (Inl e)
                  | Some (Inr g3) \<Rightarrow>
                      (case inPlaceOptimize g3 of
                         Inl e \<Rightarrow> Some (Inl e)
                       | Inr g4 \<Rightarrow> Some (Inr (ML_ERROR_NONE, g4))))))"

text \<open>The names of the nodes of the graph, in the order of the adjacency vector.\<close>

definition node_names :: "NetworkGraph \<Rightarrow> string list" where
  "node_names g = map (\<lambda>l. name (heap g ! layer (hd l))) (adj g)"

definition sorted_names :: "NetworkGraph \<Rightarrow> string list" where
  "sorted_names g = map (\<lambda>n. name (heap g ! layer n)) (Sorted g)"

section \<open>Inputs of a build\<close>

text \<open>
  A build starts on a graph without nodes. Apart from the layers and the loss kind, the
  state it starts from holds the name registry (\<open>layer_names\<close>, \<open>def_name_count\<close>), and
  two members that are results only: the count of leading non-trainable layers and the
  record of the storage manager. \<open>with_results a b g\<close> is \<open>g\<close> with other values for these
  two.
\<close>

definition fresh :: "NetworkGraph \<Rightarrow> bool" where
  "fresh g = (adj g = [] \<and> num_node g = 0 \<and> Sorted g = [] \<and> aliased g = [])"

definition with_results :: "nat \<Rightarrow> string list \<Rightarrow> NetworkGraph \<Rightarrow> NetworkGraph" where
  "with_results a b g = g\<lparr>skip_non_trainable_layers := a, untracked := b\<rparr>"

text \<open>What a build is observed by: its status, the sorted names, the sharing decisions.\<close>

definition build_view ::
  "exn + (status \<times> NetworkGraph) \<Rightarrow> exn + (status \<times> string list \<times> alias_record list)" where
  "build_view r = map_sum id (\<lambda>(st, g). (st, sorted_names g, aliased g)) r"

text \<open>
  The same result with the two fields rewritten, and two graphs that agree on every field
  but the count of leading non-trainable layers and the names handed to the manager.
\<close>

definition lift_results ::
  "nat \<Rightarrow> string list \<Rightarrow> exn + (status \<times> NetworkGraph) \<Rightarrow> exn + (status \<times> NetworkGraph)" where
  "lift_results a b r = map_sum id (map_prod id (with_results a b)) r"

definition same_core :: "NetworkGraph \<Rightarrow> NetworkGraph \<Rightarrow> bool" where
  "same_core g1 g2 = (with_results 0 [] g1 = with_results 0 [] g2)"

section \<open>Edges and well-formed adjacency\<close>

text \<open>
  The structural edges recorded in the adjacency vector: list \<open>u\<close> holds the node \<open>u\<close>
  itself first and then one entry per edge from \<open>u\<close>.
\<close>

definition edge_list :: "NetworkGraph \<Rightarrow> (nat \<times> nat) list" where
  "edge_list g = concat (map (\<lambda>(u, l). map (\<lambda>n. (u, index n)) (tl l)) (enumerate 0 (adj g)))"

text \<open>
  The shape that \<open>addLayerNode\<close> and \<open>addEdge\<close> give to the adjacency vector: one list
  per node, headed by the node whose index is the position of the list, and every entry
  carries the index of a node of the graph.
\<close>

definition wf_adj :: "NetworkGraph \<Rightarrow> bool" where
  "wf_adj g =
     (length (adj g) = num_node g
      \<and> list_all (\<lambda>(i, l). l \<noteq> [] \<and> index (hd l) = i \<and> list_all (\<lambda>n. index n < num_node g) l)
          (enumerate 0 (adj g)))"

text \<open>
  The order invariant of the stack of the depth-first visit (top first): every successor
  of an entry lies deeper in the stack.
\<close>

fun topo :: "(nat \<times> nat) set \<Rightarrow> LayerNode list \<Rightarrow> bool" where
  "topo E [] = True"
| "topo E (x # xs) = ((\<forall>v. (index x, v) \<in> E \<longrightarrow> v \<in> index ` set xs) \<and> topo E xs)"

text \<open>The nodes that are visited and not yet on the stack: the active calls of the visit.\<close>

definition gray :: "bool list \<Rightarrow> LayerNode list \<Rightarrow> nat set" where
  "gray V S = {x. x < length V \<and> V ! x \<and> x \<notin> index ` set S}"

definition unvisited :: "bool list \<Rightarrow> nat set" where
  "unvisited V = {x. x < length V \<and> \<not> V ! x}"

definition dfs_inv :: "NetworkGraph \<Rightarrow> bool list \<Rightarrow> LayerNode list \<Rightarrow> bool" where
  "dfs_inv g V S =
     (length V = num_node g \<and> distinct (map index S)
      \<and> (\<forall>x \<in> set S. index x < num_node g \<and> V ! index x)
      \<and> topo (set (edge_list g)) S)"

text \<open>
  What a visit that starts in state \<open>(V, S)\<close> and ends in state \<open>(V', S')\<close> guarantees: the
  invariant holds again, the active calls are the same, and nothing visited or stacked is
  lost.
\<close>

definition dfs_post ::
  "NetworkGraph \<Rightarrow> bool list \<Rightarrow> LayerNode list \<Rightarrow> bool list \<Rightarrow> LayerNode list \<Rightarrow> bool" where
  "dfs_post g V S V' S' =
     (dfs_inv g V' S' \<and> gray V' S' = gray V S
      \<and> (\<forall>x < num_node g. V ! x \<longrightarrow> V' ! x)
      \<and> index ` set S \<subseteq> index ` set S')"

section \<open>Example networks\<close>

definition empty_graph :: NetworkGraph where
  "empty_graph =
     \<lparr>heap = [], adj = [], num_node = 0, Sorted = [], layer_names = {||},
      def_name_count = 0, skip_non_trainable_layers = 0, aliased = [], untracked = []\<rparr>"

definition node :: "nat \<Rightarrow> LayerNode" where
  "node i = \<lparr>layer = i, index = i\<rparr>"

text \<open>A fully connected layer followed by a separate activation layer.\<close>

definition dense_layer :: Layer where
  "dense_layer =
     (createLayer ''fully_connected'')
       \<lparr>name := ''fc'', input_layers := [''__data__''], output_layers := [''act''],
        input_dim := [4]\<rparr>"

definition act_layer :: "ActivationType \<Rightarrow> Layer" where
  "act_layer act =
     (createLayer ''activation'')
       \<lparr>name := ''act'', input_layers := [''fc''], output_layers := [''__exit__''],
        activation_type := act, trainable := False\<rparr>"

definition dense_act_graph :: "ActivationType \<Rightarrow> NetworkGraph" where
  "dense_act_graph act =
     empty_graph\<lparr>heap := [dense_layer, act_layer act], adj := [[node 0], [node 1]], num_node := 2\<rparr>"

definition names_graph :: NetworkGraph where
  "names_graph = (dense_act_graph ACT_RELU)\<lparr>layer_names := {|''fc'', ''xfc'', ''xfc0''|}\<rparr>"

text \<open>A layer with two consumers and a requested activation; a layer with three inputs.\<close>

definition fanout_graph :: NetworkGraph where
  "fanout_graph =
     empty_graph\<lparr>heap := [dense_layer\<lparr>activation_type := ACT_RELU, num_outputs := 2,
                                       output_layers := [''a'', ''b'']\<rparr>],
                 adj := [[node 0]], num_node := 1\<rparr>"

definition fanin_graph :: NetworkGraph where
  "fanin_graph =
     empty_graph\<lparr>heap := [(createLayer ''fully_connected'')
                              \<lparr>name := ''m'', input_layers := [''a'', ''b'', ''c''],
                               num_inputs := 3\<rparr>]\<rparr>"

text \<open>
  Two input layers whose names are given, and a third layer that consumes the name
  \<open>a\<close>.
\<close>

definition input_layer :: "string \<Rightarrow> Layer" where
  "input_layer n = (createLayer ''input'')\<lparr>name := n, input_dim := [4]\<rparr>"

definition two_inputs_graph :: "string \<Rightarrow> string \<Rightarrow> NetworkGraph" where
  "two_inputs_graph n1 n2 =
     empty_graph\<lparr>heap := [input_layer n1, input_layer n2,
                          (createLayer ''fully_connected'')\<lparr>name := ''c'', input_layers := [''a'']\<rparr>]\<rparr>"

text \<open>
  A convolution, a batch normalization and a relu activation in a chain, as the graph
  stands after edge resolution.
\<close>

definition conv_layer :: Layer where
  "conv_layer =
     (createLayer ''conv2d'')
       \<lparr>name := ''conv'', input_layers := [''__data__''], output_layers := [''bn''],
        input_dim := [4]\<rparr>"

definition bn_layer :: Layer where
  "bn_layer =
     (createLayer BatchNormalizationLayer_type)
       \<lparr>name := ''bn'', input_layers := [''conv''], output_layers := [''act'']\<rparr>"

definition relu_layer :: Layer where
  "relu_layer =
     (createLayer ''activation'')
       \<lparr>name := ''act'', input_layers := [''bn''], output_layers := [''__exit__''],
        activation_type := ACT_RELU\<rparr>"

definition chain_graph :: NetworkGraph where
  "chain_graph =
     empty_graph\<lparr>heap := [conv_layer, bn_layer, relu_layer],
                 adj := [[node 0, node 1], [node 1, node 2], [node 2]], num_node := 3\<rparr>"

text \<open>
  The flat layer list of a fully connected layer followed by an activation layer, as a
  user declares it.
\<close>

definition flat_dense_act :: "ActivationType \<Rightarrow> NetworkGraph" where
  "flat_dense_act act =
     empty_graph\<lparr>heap := [(createLayer ''fully_connected'')\<lparr>name := ''fc'', input_dim := [4]\<rparr>,
                          (createLayer ''activation'')
                            \<lparr>name := ''act'', input_layers := [''fc''], activation_type := act\<rparr>]\<rparr>"

text \<open>
  The flat layer list of a convolution followed by a batch normalization. The batch
  normalization layer declares an activation of its own, which the realizer turns into
  a separate activation node behind it.
\<close>

definition flat_conv_bn :: "ActivationType \<Rightarrow> NetworkGraph" where
  "flat_conv_bn act =
     empty_graph\<lparr>heap := [(createLayer ''conv2d'')\<lparr>name := ''conv'', input_dim := [4]\<rparr>,
                          (createLayer BatchNormalizationLayer_type)
                            \<lparr>name := ''bn'', input_layers := [''conv''], activation_type := act\<rparr>]\<rparr>"

definition sorted_chain_graph :: NetworkGraph where
  "sorted_chain_graph = chain_graph\<lparr>Sorted := [node 0, node 1, node 2]\<rparr>"

text \<open>
  A convolution, a softmax activation and a batch normalization in a chain, sorted: the
  batch normalization stands behind a node of an allow-listed type that is not aliased.
\<close>

definition softmax_bn_graph :: NetworkGraph where
  "softmax_bn_graph =
     empty_graph
       \<lparr>heap := [conv_layer\<lparr>output_layers := [''sm'']\<rparr>,
                 (createLayer ''activation'')
                   \<lparr>name := ''sm'', input_layers := [''conv''], output_layers := [''bn''],
                    activation_type := ACT_SOFTMAX\<rparr>,
                 (createLayer BatchNormalizationLayer_type)
                   \<lparr>name := ''bn'', input_layers := [''sm''], output_layers := [''__exit__'']\<rparr>],
        adj := [[node 0, node 1], [node 1, node 2], [node 2]], num_node := 3,
        Sorted := [node 0, node 1, node 2]\<rparr>"

section \<open>Properties of the counting of non-trainable layers\<close>

lemma length_takeWhile_lt:
  "\<exists>x \<in> set xs. \<not> P x \<Longrightarrow> length (takeWhile P xs) < length xs"
  by (induction xs) auto

lemma countNonTrainable_loop_eq:
  "countNonTrainable_loop h ns i skip =
     (if \<exists>n \<in> set ns. trainable (h ! layer n)
      then i + length (takeWhile (\<lambda>n. \<not> trainable (h ! layer n)) ns) else skip)"
  by (induction ns arbitrary: i) auto

text \<open>
  Claim C10. \<open>countNonTrainableLayersAtBegin\<close> changes nothing but the count of leading
  non-trainable layers. When some node of the sorted order is trainable the count becomes
  the position of the first trainable node; when no node is trainable the count keeps
  the value it had (it is not set to the number of nodes).
\<close>

theorem countNonTrainableLayersAtBegin_first_trainable:
  "countNonTrainableLayersAtBegin g =
     g\<lparr>skip_non_trainable_layers :=
         skip_non_trainable_layers (countNonTrainableLayersAtBegin g)\<rparr>
   \<and> ((\<exists>n \<in> set (Sorted g). trainable (heap g ! layer n)) \<longrightarrow>
        skip_non_trainable_layers (countNonTrainableLayersAtBegin g) =
          length (takeWhile (\<lambda>n. \<not> trainable (heap g ! layer n)) (Sorted g))
        \<and> skip_non_trainable_layers (countNonTrainableLayersAtBegin g) < length (Sorted g)
        \<and> trainable (heap g !
              layer (Sorted g ! skip_non_trainable_layers (countNonTrainableLayersAtBegin g))))
   \<and> ((\<forall>n \<in> set (Sorted g). \<not> trainable (heap g ! layer n)) \<longrightarrow>
        skip_non_trainable_layers (countNonTrainableLayersAtBegin g) =
          skip_non_trainable_layers g)"
proof -
  let ?P = "\<lambda>n. \<not> trainable (heap g ! layer n)"
  have frame: "countNonTrainableLayersAtBegin g =
     g\<lparr>skip_non_trainable_layers :=
         skip_non_trainable_layers (countNonTrainableLayersAtBegin g)\<rparr>"
    by (simp add: countNonTrainableLayersAtBegin_def)
  have some: "skip_non_trainable_layers (countNonTrainableLayersAtBegin g) =
          length (takeWhile ?P (Sorted g))
        \<and> skip_non_trainable_layers (countNonTrainableLayersAtBegin g) < length (Sorted g)
        \<and> trainable (heap g !
              layer (Sorted g ! skip_non_trainable_layers (countNonTrainableLayersAtBegin g)))"
    if ex: "\<exists>n \<in> set (Sorted g). trainable (heap g ! layer n)"
  proof -
    have eq: "skip_non_trainable_layers (countNonTrainableLayersAtBegin g) =
          length (takeWhile ?P (Sorted g))"
      using ex by (simp add: countNonTrainableLayersAtBegin_def countNonTrainable_loop_eq)
    have lt: "length (takeWhile ?P (Sorted g)) < length (Sorted g)"
      using ex by (intro length_takeWhile_lt) simp
    have "\<not> ?P (Sorted g ! length (takeWhile ?P (Sorted g)))"
      using lt by (rule nth_length_takeWhile)
    with eq lt show ?thesis
      by simp
  qed
  have none: "skip_non_trainable_layers (countNonTrainableLayersAtBegin g) =
          skip_non_trainable_layers g"
    if "\<forall>n \<in> set (Sorted g). \<not> trainable (heap g ! layer n)"
    using that by (simp add: countNonTrainableLayersAtBegin_def countNonTrainable_loop_eq)
  from frame some none show ?thesis
    by blast
qed

theorem countNonTrainableLayersAtBegin_first_trainable_witness:
  "skip_non_trainable_layers
     (countNonTrainableLayersAtBegin
        ((dense_act_graph ACT_RELU)\<lparr>Sorted := [node 1, node 0], skip_non_trainable_layers := 7\<rparr>)) = 1
   \<and> skip_non_trainable_layers
     (countNonTrainableLayersAtBegin
        ((dense_act_graph ACT_RELU)\<lparr>Sorted := [node 1, node 1], skip_non_trainable_layers := 7\<rparr>)) = 7"
proof -
  let ?g1 = "(dense_act_graph ACT_RELU)\<lparr>Sorted := [node 1, node 0], skip_non_trainable_layers := 7\<rparr>"
  let ?g2 = "(dense_act_graph ACT_RELU)\<lparr>Sorted := [node 1, node 1], skip_non_trainable_layers := 7\<rparr>"
  have ex: "\<exists>n \<in> set (Sorted ?g1). trainable (heap ?g1 ! layer n)"
    by (simp add: dense_act_graph_def empty_graph_def node_def dense_layer_def act_layer_def
        createLayer_def)
  have all: "\<forall>n \<in> set (Sorted ?g2). \<not> trainable (heap ?g2 ! layer n)"
    by (simp add: dense_act_graph_def empty_graph_def node_def dense_layer_def act_layer_def
        createLayer_def)
  have a: "skip_non_trainable_layers (countNonTrainableLayersAtBegin ?g1) = 1"
    using countNonTrainableLayersAtBegin_first_trainable [of ?g1] ex
    by (simp add: dense_act_graph_def empty_graph_def node_def dense_layer_def act_layer_def
        createLayer_def)
  have b: "skip_non_trainable_layers (countNonTrainableLayersAtBegin ?g2) = 7"
    using countNonTrainableLayersAtBegin_first_trainable [of ?g2] all
    by (simp add: dense_act_graph_def empty_graph_def)
  from a b show ?thesis
    by simp
qed

section \<open>Properties of the name registry\<close>

lemma ensureName_loop_spec:
  "\<exists>k\<ge>c. ensureName_loop names d c = (d @ to_string k, Suc k)
      \<and> d @ to_string k |\<notin>| names
      \<and> (\<forall>j. c \<le> j \<and> j < k \<longrightarrow> d @ to_string j |\<in>| names)"
proof (induction names d c rule: ensureName_loop.induct)
  case (1 names d c)
  show ?case
  proof (cases "d @ to_string c |\<in>| names")
    case True
    with 1 obtain k where k: "Suc c \<le> k"
      "ensureName_loop names d (Suc c) = (d @ to_string k, Suc k)"
      "d @ to_string k |\<notin>| names"
      "\<forall>j. Suc c \<le> j \<and> j < k \<longrightarrow> d @ to_string j |\<in>| names"
      by auto
    have "ensureName_loop names d c = (d @ to_string k, Suc k)"
      using True k(2) by (subst ensureName_loop.simps) simp
    moreover have "\<forall>j. c \<le> j \<and> j < k \<longrightarrow> d @ to_string j |\<in>| names"
      using True k(4) by (metis Suc_leI le_neq_implies_less)
    ultimately show ?thesis
      using k(1,3) by (intro exI[of _ k]) simp
  next
    case False
    then have "ensureName_loop names d c = (d @ to_string c, Suc c)"
      by (subst ensureName_loop.simps) simp
    with False show ?thesis
      by (intro exI[of _ c]) auto
  qed
qed

lemma heap_upd_simps [simp]:
  "heap (heap_upd a f g) = (heap g)[a := f (heap g ! a)]"
  "adj (heap_upd a f g) = adj g"
  "num_node (heap_upd a f g) = num_node g"
  "Sorted (heap_upd a f g) = Sorted g"
  "layer_names (heap_upd a f g) = layer_names g"
  "def_name_count (heap_upd a f g) = def_name_count g"
  "skip_non_trainable_layers (heap_upd a f g) = skip_non_trainable_layers g"
  "aliased (heap_upd a f g) = aliased g"
  "untracked (heap_upd a f g) = untracked g"
  by (simp_all add: heap_upd_def)

text \<open>
  The name that \<open>ensureName\<close> chooses, for a valid layer pointer. A non-empty, unforced
  name that is not found in \<open>layer_names\<close> is kept and the state is left as it was.
  Otherwise a non-empty original name with a \<open>prefix + name\<close> that is not found gets that
  string. Otherwise the name is \<open>prefix + base + counter\<close> for the first counter value,
  from \<open>def_name_count\<close> upwards, whose string is not found, where the base is the
  original name when it is non-empty and the type tag otherwise; the counter is left one
  past that value. The function always returns and writes nothing but the name of that
  one layer and the counter.
\<close>

lemma ensureName_choice:
  "a < length (heap g) \<longrightarrow>
   (let orig = name (heap g ! a);
        names = layer_names g;
        g' = ensureName a prefix force_rename g;
        base = (if orig = [] then ltype (heap g ! a) else orig)
    in (orig \<noteq> [] \<and> \<not> force_rename \<and> orig |\<notin>| names \<longrightarrow> g' = g)
     \<and> (\<not> (orig \<noteq> [] \<and> \<not> force_rename \<and> orig |\<notin>| names)
          \<and> orig \<noteq> [] \<and> prefix @ orig |\<notin>| names \<longrightarrow>
            name (heap g' ! a) = prefix @ orig \<and> def_name_count g' = def_name_count g)
     \<and> (\<not> (orig \<noteq> [] \<and> \<not> force_rename \<and> orig |\<notin>| names)
          \<and> \<not> (orig \<noteq> [] \<and> prefix @ orig |\<notin>| names) \<longrightarrow>
            (\<exists>k\<ge>def_name_count g.
               name (heap g' ! a) = prefix @ base @ to_string k
               \<and> prefix @ base @ to_string k |\<notin>| names
               \<and> (\<forall>j. def_name_count g \<le> j \<and> j < k \<longrightarrow>
                      prefix @ base @ to_string j |\<in>| names)
               \<and> def_name_count g' = Suc k))
     \<and> layer_names g' = names
     \<and> length (heap g') = length (heap g)
     \<and> (\<forall>b. b \<noteq> a \<longrightarrow> heap g' ! b = heap g ! b)
     \<and> (\<exists>n. heap g' ! a = (heap g ! a)\<lparr>name := n\<rparr>)
     \<and> adj g' = adj g \<and> num_node g' = num_node g \<and> Sorted g' = Sorted g)"
proof (intro impI)
  assume a: "a < length (heap g)"
  let ?orig = "name (heap g ! a)"
  let ?base = "if ?orig = [] then ltype (heap g ! a) else ?orig"
  let ?keep = "?orig \<noteq> [] \<and> \<not> force_rename \<and> ?orig |\<notin>| layer_names g"
  let ?direct = "?orig \<noteq> [] \<and> prefix @ ?orig |\<notin>| layer_names g"
  let ?g' = "ensureName a prefix force_rename g"
  obtain k where k: "def_name_count g \<le> k"
      "ensureName_loop (layer_names g) (prefix @ ?base) (def_name_count g)
         = ((prefix @ ?base) @ to_string k, Suc k)"
      "(prefix @ ?base) @ to_string k |\<notin>| layer_names g"
      "\<forall>j. def_name_count g \<le> j \<and> j < k \<longrightarrow> (prefix @ ?base) @ to_string j |\<in>| layer_names g"
    using ensureName_loop_spec[of "def_name_count g" "layer_names g" "prefix @ ?base"] by blast
  have c1: "?keep \<longrightarrow> ?g' = g"
    by (simp add: ensureName_def)
  have c2: "\<not> ?keep \<and> ?direct \<longrightarrow>
      name (heap ?g' ! a) = prefix @ ?orig \<and> def_name_count ?g' = def_name_count g"
    using a by (auto simp: ensureName_def Let_def setName_def)
  have c3: "\<not> ?keep \<and> \<not> ?direct \<longrightarrow>
      (\<exists>k\<ge>def_name_count g.
               name (heap ?g' ! a) = prefix @ ?base @ to_string k
               \<and> prefix @ ?base @ to_string k |\<notin>| layer_names g
               \<and> (\<forall>j. def_name_count g \<le> j \<and> j < k \<longrightarrow>
                      prefix @ ?base @ to_string j |\<in>| layer_names g)
               \<and> def_name_count ?g' = Suc k)"
  proof
    assume h: "\<not> ?keep \<and> \<not> ?direct"
    then have "?g' = setName a ((prefix @ ?base) @ to_string k) (g\<lparr>def_name_count := Suc k\<rparr>)"
      using k(2) by (auto simp: ensureName_def Let_def)
    then have "name (heap ?g' ! a) = prefix @ ?base @ to_string k" "def_name_count ?g' = Suc k"
      using a by (simp_all add: setName_def)
    with k(1,3,4) show "\<exists>k\<ge>def_name_count g.
               name (heap ?g' ! a) = prefix @ ?base @ to_string k
               \<and> prefix @ ?base @ to_string k |\<notin>| layer_names g
               \<and> (\<forall>j. def_name_count g \<le> j \<and> j < k \<longrightarrow>
                      prefix @ ?base @ to_string j |\<in>| layer_names g)
               \<and> def_name_count ?g' = Suc k"
      by (intro exI[of _ k]) simp
  qed
  have c4: "layer_names ?g' = layer_names g" "length (heap ?g') = length (heap g)"
    "adj ?g' = adj g" "num_node ?g' = num_node g" "Sorted ?g' = Sorted g"
    by (simp_all add: ensureName_def Let_def setName_def)
  have c5: "\<forall>b. b \<noteq> a \<longrightarrow> heap ?g' ! b = heap g ! b"
    by (simp add: ensureName_def Let_def setName_def)
  have c6: "\<exists>n. heap ?g' ! a = (heap g ! a)\<lparr>name := n\<rparr>"
  proof (cases ?keep)
    case True
    then have "heap ?g' ! a = (heap g ! a)\<lparr>name := ?orig\<rparr>"
      by (simp add: ensureName_def)
    then show ?thesis ..
  next
    case False
    then show ?thesis
      using a by (auto simp: ensureName_def Let_def setName_def)
  qed
  from c1 c2 c3 c4 c5 c6 show "let orig = name (heap g ! a);
        names = layer_names g;
        g' = ensureName a prefix force_rename g;
        base = (if orig = [] then ltype (heap g ! a) else orig)
    in (orig \<noteq> [] \<and> \<not> force_rename \<and> orig |\<notin>| names \<longrightarrow> g' = g)
     \<and> (\<not> (orig \<noteq> [] \<and> \<not> force_rename \<and> orig |\<notin>| names)
          \<and> orig \<noteq> [] \<and> prefix @ orig |\<notin>| names \<longrightarrow>
            name (heap g' ! a) = prefix @ orig \<and> def_name_count g' = def_name_count g)
     \<and> (\<not> (orig \<noteq> [] \<and> \<not> force_rename \<and> orig |\<notin>| names)
          \<and> \<not> (orig \<noteq> [] \<and> prefix @ orig |\<notin>| names) \<longrightarrow>
            (\<exists>k\<ge>def_name_count g.
               name (heap g' ! a) = prefix @ base @ to_string k
               \<and> prefix @ base @ to_string k |\<notin>| names
               \<and> (\<forall>j. def_name_count g \<le> j \<and> j < k \<longrightarrow>
                      prefix @ base @ to_string j |\<in>| names)
               \<and> def_name_count g' = Suc k))
     \<and> layer_names g' = names
     \<and> length (heap g') = length (heap g)
     \<and> (\<forall>b. b \<noteq> a \<longrightarrow> heap g' ! b = heap g ! b)
     \<and> (\<exists>n. heap g' ! a = (heap g ! a)\<lparr>name := n\<rparr>)
     \<and> adj g' = adj g \<and> num_node g' = num_node g \<and> Sorted g' = Sorted g"
    unfolding Let_def by blast
qed

lemma loop_ev: "ensureName_loop {|''fc'', ''xfc'', ''xfc0''|} ''xfc'' 0 = (''xfc1'', 2)"
  by (simp add: ensureName_loop.simps to_string.simps digit_char_def)

lemma names_graph_simps:
  "heap names_graph = [dense_layer, act_layer ACT_RELU]"
  "layer_names names_graph = {|''fc'', ''xfc'', ''xfc0''|}"
  "def_name_count names_graph = 0"
  "name dense_layer = ''fc''" "name (act_layer ACT_RELU) = ''act''"
  by (simp_all add: names_graph_def dense_act_graph_def empty_graph_def dense_layer_def
      act_layer_def createLayer_def)

lemma ensureName_choice_example:
  "ensureName 1 ''x'' False names_graph = names_graph
   \<and> name (heap (ensureName 1 ''x'' True names_graph) ! 1) = ''xact''
   \<and> name (heap (ensureName 0 ''x'' False names_graph) ! 0) = ''xfc1''
   \<and> def_name_count (ensureName 0 ''x'' False names_graph) = 2"
proof -
  have len: "1 < length (heap names_graph)" "0 < length (heap names_graph)"
    by (simp_all add: names_graph_simps)
  have keep: "name (heap names_graph ! 1) \<noteq> [] \<and> \<not> False
      \<and> name (heap names_graph ! 1) |\<notin>| layer_names names_graph"
    by (simp add: names_graph_simps)
  have a: "ensureName 1 ''x'' False names_graph = names_graph"
    using ensureName_choice [of 1 names_graph "''x''" False] len(1) keep
    unfolding Let_def by blast
  have direct: "\<not> (name (heap names_graph ! 1) \<noteq> [] \<and> \<not> True
      \<and> name (heap names_graph ! 1) |\<notin>| layer_names names_graph)
      \<and> name (heap names_graph ! 1) \<noteq> []
      \<and> ''x'' @ name (heap names_graph ! 1) |\<notin>| layer_names names_graph"
    by (simp add: names_graph_simps)
  have "name (heap (ensureName 1 ''x'' True names_graph) ! 1) = ''x'' @ name (heap names_graph ! 1)"
    using ensureName_choice [of 1 names_graph "''x''" True] len(1) direct
    unfolding Let_def by blast
  then have b: "name (heap (ensureName 1 ''x'' True names_graph) ! 1) = ''xact''"
    by (simp add: names_graph_simps)
  have c: "name (heap (ensureName 0 ''x'' False names_graph) ! 0) = ''xfc1''"
    "def_name_count (ensureName 0 ''x'' False names_graph) = 2"
    by (simp_all add: ensureName_def names_graph_simps loop_ev setName_def)
  from a b c show ?thesis
    by simp
qed

text \<open>
  Claim C4 says that \<open>ensureName\<close> registers the name it chooses in the set of used
  names. On a graph whose set of used names is empty, a layer named \<open>fc\<close> keeps its name
  and the set is still empty after the call; two layers with the same name, added one
  after the other, therefore both keep it. On a graph whose set holds \<open>fc\<close>, \<open>xfc\<close> and
  \<open>xfc0\<close>, the call with prefix \<open>x\<close> chooses \<open>xfc1\<close>, which is not in the set after the
  call either. The function looks names up and never inserts one.
\<close>

theorem ensureName_leaves_name_unregistered:
  "name (heap (ensureName 0 [] False (dense_act_graph ACT_RELU)) ! 0) = ''fc''
   \<and> layer_names (ensureName 0 [] False (dense_act_graph ACT_RELU)) = {||}
   \<and> node_names (addLayerNode 1 (addLayerNode 0 (two_inputs_graph ''a'' ''a''))) = [''a'', ''a'']
   \<and> name (heap (ensureName 0 ''x'' False names_graph) ! 0) = ''xfc1''
   \<and> name (heap (ensureName 0 ''x'' False names_graph) ! 0)
        |\<notin>| layer_names (ensureName 0 ''x'' False names_graph)"
proof -
  have a: "name (heap (ensureName 0 [] False (dense_act_graph ACT_RELU)) ! 0) = ''fc''"
    "layer_names (ensureName 0 [] False (dense_act_graph ACT_RELU)) = {||}"
    by (simp_all add: ensureName_def dense_act_graph_def empty_graph_def dense_layer_def
        createLayer_def)
  have b: "node_names (addLayerNode 1 (addLayerNode 0 (two_inputs_graph ''a'' ''a''))) = [''a'', ''a'']"
    by code_simp
  have c: "name (heap (ensureName 0 ''x'' False names_graph) ! 0) = ''xfc1''"
    "name (heap (ensureName 0 ''x'' False names_graph) ! 0)
        |\<notin>| layer_names (ensureName 0 ''x'' False names_graph)"
    by (simp_all add: ensureName_def names_graph_simps loop_ev setName_def)
  from a b c show ?thesis
    by simp
qed

section \<open>Properties of the terminal attachment\<close>

text \<open>
  The exit of \<open>addLossLayer\<close> in the default branch of the switch on the activation kind:
  the status is returned after the last adjacency list has been popped and the node count
  decremented.
\<close>

lemma addLossLayer_entropy_rejects:
  "num_node g \<noteq> 0
   \<and> getLayerNode g (num_node g - 1) = Inr n
   \<and> ltype (heap g ! layer n) = ''activation''
   \<and> activation_type (heap g ! layer n) \<noteq> ACT_SIGMOID
   \<and> activation_type (heap g ! layer n) \<noteq> ACT_SOFTMAX
   \<longrightarrow> addLossLayer LOSS_ENTROPY g =
         Inr (ML_ERROR_NOT_SUPPORTED,
              g\<lparr>adj := butlast (adj g), num_node := num_node g - 1\<rparr>)"
  by (cases "activation_type (heap g ! layer n)")
     (auto simp: addLossLayer_def uint_sub_def Let_def)

lemma dense_act_graph_simps:
  "heap (dense_act_graph act) = [dense_layer, act_layer act]"
  "adj (dense_act_graph act) = [[node 0], [node 1]]"
  "num_node (dense_act_graph act) = 2"
  "ltype (act_layer act) = ''activation''"
  "activation_type (act_layer act) = act"
  by (simp_all add: dense_act_graph_def empty_graph_def act_layer_def createLayer_def)

lemma getLayerNode_dense_act: "getLayerNode (dense_act_graph act) (Suc 0) = Inr (node 1)"
  by (simp add: getLayerNode_def dense_act_graph_simps numeral_2_eq_2 node_def)

lemma addLossLayer_entropy_rejects_example:
  "addLossLayer LOSS_ENTROPY (dense_act_graph ACT_RELU) =
     Inr (ML_ERROR_NOT_SUPPORTED, (dense_act_graph ACT_RELU)\<lparr>adj := [[node 0]], num_node := 1\<rparr>)"
proof -
  let ?g = "dense_act_graph ACT_RELU"
  have h: "num_node ?g \<noteq> 0
   \<and> getLayerNode ?g (num_node ?g - 1) = Inr (node 1)
   \<and> ltype (heap ?g ! layer (node 1)) = ''activation''
   \<and> activation_type (heap ?g ! layer (node 1)) \<noteq> ACT_SIGMOID
   \<and> activation_type (heap ?g ! layer (node 1)) \<noteq> ACT_SOFTMAX"
    by (simp add: dense_act_graph_simps getLayerNode_dense_act) (simp add: node_def dense_act_graph_simps)
  have "addLossLayer LOSS_ENTROPY ?g =
         Inr (ML_ERROR_NOT_SUPPORTED, ?g\<lparr>adj := butlast (adj ?g), num_node := num_node ?g - 1\<rparr>)"
    using addLossLayer_entropy_rejects [of ?g "node 1"] h by blast
  then show ?thesis
    by (simp add: dense_act_graph_simps)
qed

lemma addLossLayer_entropy_relu_pops:
  "addLossLayer LOSS_ENTROPY (dense_act_graph ACT_RELU) =
     Inr (ML_ERROR_NOT_SUPPORTED, (dense_act_graph ACT_RELU)\<lparr>adj := [[node 0]], num_node := 1\<rparr>)"
  by (simp add: addLossLayer_def dense_act_graph_simps getLayerNode_dense_act uint_sub_def node_def)

text \<open>
  Claim C1 says that a build which requests cross entropy behind a relu activation fails
  with the not-supported status before any node is removed. For the flat list of a fully
  connected layer and a relu activation, the realization and the whole build do return
  the not-supported status, but the graph they leave holds the fully connected node
  only: realization without a loss yields the nodes \<open>fc\<close> and \<open>act\<close>, and
  \<open>addLossLayer\<close> pops the activation node before it looks at the activation kind.
  The other exit of the same check, taken when the last node is not an activation node
  at all, returns the same status with the graph intact.
\<close>

theorem build_entropy_relu_fails_after_pop:
  "map_option (map_sum id (\<lambda>(st, g). (st, node_names g, num_node g)))
     (build 3 [0, 1] LOSS_ENTROPY (flat_dense_act ACT_RELU))
     = Some (Inr (ML_ERROR_NOT_SUPPORTED, [''fc''], 1))
   \<and> map_sum id (\<lambda>(st, g). (st, node_names g, num_node g))
     (setGraphNode [0, 1] LOSS_ENTROPY (flat_dense_act ACT_RELU))
     = Inr (ML_ERROR_NOT_SUPPORTED, [''fc''], 1)
   \<and> map_sum id (\<lambda>(st, g). (st, node_names g, num_node g))
     (setGraphNode [0, 1] LOSS_NONE (flat_dense_act ACT_RELU))
     = Inr (ML_ERROR_NONE, [''fc'', ''act''], 2)
   \<and> addLossLayer LOSS_ENTROPY (dense_act_graph ACT_RELU) =
     Inr (ML_ERROR_NOT_SUPPORTED, (dense_act_graph ACT_RELU)\<lparr>adj := [[node 0]], num_node := 1\<rparr>)
   \<and> adj ((dense_act_graph ACT_RELU)\<lparr>adj := [[node 0]], num_node := 1\<rparr>)
       \<noteq> adj (dense_act_graph ACT_RELU)
   \<and> map_sum id (\<lambda>(st, g). (st, node_names g, num_node g))
     (setGraphNode [0] LOSS_ENTROPY (flat_dense_act ACT_RELU))
     = Inr (ML_ERROR_NOT_SUPPORTED, [''fc''], 1)
   \<and> map_sum id (\<lambda>(st, g). (st, node_names g, num_node g))
     (setGraphNode [0] LOSS_NONE (flat_dense_act ACT_RELU))
     = Inr (ML_ERROR_NONE, [''fc''], 1)"
proof -
  have a: "map_option (map_sum id (\<lambda>(st, g). (st, node_names g, num_node g)))
     (build 3 [0, 1] LOSS_ENTROPY (flat_dense_act ACT_RELU))
     = Some (Inr (ML_ERROR_NOT_SUPPORTED, [''fc''], 1))"
    by code_simp
  have b: "map_sum id (\<lambda>(st, g). (st, node_names g, num_node g))
     (setGraphNode [0, 1] LOSS_ENTROPY (flat_dense_act ACT_RELU))
     = Inr (ML_ERROR_NOT_SUPPORTED, [''fc''], 1)"
    by code_simp
  have c: "map_sum id (\<lambda>(st, g). (st, node_names g, num_node g))
     (setGraphNode [0, 1] LOSS_NONE (flat_dense_act ACT_RELU))
     = Inr (ML_ERROR_NONE, [''fc'', ''act''], 2)"
    by code_simp
  have d: "adj ((dense_act_graph ACT_RELU)\<lparr>adj := [[node 0]], num_node := 1\<rparr>)
       \<noteq> adj (dense_act_graph ACT_RELU)"
    by (simp add: dense_act_graph_simps)
  have e: "map_sum id (\<lambda>(st, g). (st, node_names g, num_node g))
     (setGraphNode [0] LOSS_ENTROPY (flat_dense_act ACT_RELU))
     = Inr (ML_ERROR_NOT_SUPPORTED, [''fc''], 1)"
    by code_simp
  have f: "map_sum id (\<lambda>(st, g). (st, node_names g, num_node g))
     (setGraphNode [0] LOSS_NONE (flat_dense_act ACT_RELU))
     = Inr (ML_ERROR_NONE, [''fc''], 1)"
    by code_simp
  from a b c d e f addLossLayer_entropy_relu_pops show ?thesis
    by simp
qed

lemma ensureName_frame:
  "\<exists>n c. ensureName a p f g =
     g\<lparr>heap := (heap g)[a := (heap g ! a)\<lparr>name := n\<rparr>], def_name_count := c\<rparr>"
proof -
  let ?orig = "name (heap g ! a)"
  have id: "g = g\<lparr>heap := (heap g)[a := (heap g ! a)\<lparr>name := ?orig\<rparr>],
                 def_name_count := def_name_count g\<rparr>"
    by simp
  show ?thesis
  proof (cases "?orig \<noteq> [] \<and> \<not> f \<and> ?orig |\<notin>| layer_names g")
    case True
    then have "ensureName a p f g = g"
      by (simp add: ensureName_def)
    with id show ?thesis
      by metis
  next
    case False
    note F = this
    show ?thesis
    proof (cases "?orig \<noteq> [] \<and> (p @ ?orig) |\<notin>| layer_names g")
      case True
      with F have "ensureName a p f g =
          g\<lparr>heap := (heap g)[a := (heap g ! a)\<lparr>name := p @ ?orig\<rparr>],
            def_name_count := def_name_count g\<rparr>"
        by (auto simp: ensureName_def setName_def heap_upd_def)
      then show ?thesis
        by blast
    next
      case False
      with F have "ensureName a p f g =
          g\<lparr>heap := (heap g)[a := (heap g ! a)\<lparr>name :=
                 fst (ensureName_loop (layer_names g)
                        (p @ (if ?orig = [] then ltype (heap g ! a) else ?orig))
                        (def_name_count g))\<rparr>],
            def_name_count := snd (ensureName_loop (layer_names g)
                        (p @ (if ?orig = [] then ltype (heap g ! a) else ?orig))
                        (def_name_count g))\<rparr>"
        by (auto simp: ensureName_def setName_def heap_upd_def Let_def)
      then show ?thesis
        by blast
    qed
  qed
qed

lemma to_string_nonempty: "to_string n \<noteq> []"
  by (subst to_string.simps) simp

lemma ensureName_unused:
  assumes a: "a < length (heap g)"
  shows "name (heap (ensureName a p f g) ! a) \<noteq> []
       \<and> name (heap (ensureName a p f g) ! a) |\<notin>| layer_names g"
proof -
  let ?orig = "name (heap g ! a)"
  let ?base = "if ?orig = [] then ltype (heap g ! a) else ?orig"
  obtain k where k:
      "ensureName_loop (layer_names g) (p @ ?base) (def_name_count g)
         = ((p @ ?base) @ to_string k, Suc k)"
      "(p @ ?base) @ to_string k |\<notin>| layer_names g"
    using ensureName_loop_spec[of "def_name_count g" "layer_names g" "p @ ?base"] by blast
  show ?thesis
  proof (cases "?orig \<noteq> [] \<and> \<not> f \<and> ?orig |\<notin>| layer_names g")
    case True
    then show ?thesis
      by (simp add: ensureName_def)
  next
    case False
    note F = this
    show ?thesis
    proof (cases "?orig \<noteq> [] \<and> (p @ ?orig) |\<notin>| layer_names g")
      case True
      with F a show ?thesis
        by (auto simp: ensureName_def setName_def)
    next
      case False
      with F a k show ?thesis
        by (auto simp: ensureName_def setName_def Let_def to_string_nonempty)
    qed
  qed
qed

lemma ensureName_fields [simp]:
  "adj (ensureName a p f g) = adj g"
  "num_node (ensureName a p f g) = num_node g"
  "Sorted (ensureName a p f g) = Sorted g"
  "layer_names (ensureName a p f g) = layer_names g"
  "aliased (ensureName a p f g) = aliased g"
  "untracked (ensureName a p f g) = untracked g"
  "skip_non_trainable_layers (ensureName a p f g) = skip_non_trainable_layers g"
  "length (heap (ensureName a p f g)) = length (heap g)"
  by (simp_all add: ensureName_def Let_def setName_def)

lemma ensureName_other [simp]: "b \<noteq> a \<Longrightarrow> heap (ensureName a p f g) ! b = heap g ! b"
  by (simp add: ensureName_def Let_def setName_def)

lemma ensureName_same:
  "a < length (heap g) \<Longrightarrow>
     heap (ensureName a p f g) ! a = (heap g ! a)\<lparr>name := name (heap (ensureName a p f g) ! a)\<rparr>"
  using ensureName_frame[of a p f g] by auto

lemma ensureName_idem:
  assumes "a < length (heap g)"
  shows "ensureName a [] False (ensureName a p f g) = ensureName a p f g"
  using ensureName_unused[OF assms, of p f]
  by (simp add: ensureName_def[of a "[]" False])

section \<open>Properties of the realization\<close>

text \<open>
  Claim C9. When the activation kind of a layer is known and not trivial and the layer is
  not itself an activation layer, a declared output count other than one makes
  \<open>realizeActivationType\<close> return the invalid-parameter status, and no node is added: the
  adjacency lists and the node count are those of the state before the call.
\<close>

theorem realizeActivationType_output_count:
  "current < length (heap g)
   \<and> activation_type (heap g ! current) \<noteq> ACT_NONE
   \<and> activation_type (heap g ! current) \<noteq> ACT_UNKNOWN
   \<and> ltype (heap g ! current) \<noteq> ActivationLayer_type
   \<and> num_outputs (heap g ! current) \<noteq> 1
   \<longrightarrow> (\<exists>g'. realizeActivationType current layers g = Inr (ML_ERROR_INVALID_PARAMETER, g')
          \<and> adj g' = adj g \<and> num_node g' = num_node g \<and> Sorted g' = Sorted g)"
proof (intro impI, elim conjE)
  assume cur: "current < length (heap g)"
    and act: "activation_type (heap g ! current) \<noteq> ACT_NONE"
      "activation_type (heap g ! current) \<noteq> ACT_UNKNOWN"
    and ty: "ltype (heap g ! current) \<noteq> ActivationLayer_type"
    and out: "num_outputs (heap g ! current) \<noteq> 1"
  show "\<exists>g'. realizeActivationType current layers g = Inr (ML_ERROR_INVALID_PARAMETER, g')
          \<and> adj g' = adj g \<and> num_node g' = num_node g \<and> Sorted g' = Sorted g"
  proof (cases "num_node g = 0")
    case True
    with act ty show ?thesis
      by (simp add: realizeActivationType_def)
  next
    case False
    let ?a = "length (heap g)"
    let ?g1 = "g\<lparr>heap := heap g @ [createLayer ''activation'']\<rparr>"
    let ?g2 = "ensureName ?a (name (heap ?g1 ! current)) False ?g1"
    let ?g3 = "heap_upd ?a
                   (\<lambda>l. l\<lparr>activation_type := activation_type (heap g ! current), num_inputs := 1,
                          input_layers := [name (heap ?g2 ! current)]\<rparr>) ?g2"
    have "heap ?g3 ! current = heap g ! current"
      using cur by (simp add: nth_append)
    with out have "num_outputs (heap ?g3 ! current) \<noteq> 1"
      by simp
    then have "realizeActivationType current layers g = Inr (ML_ERROR_INVALID_PARAMETER, ?g3)"
      using act ty False by (simp add: realizeActivationType_def alloc_def Let_def)
    moreover have "adj ?g3 = adj g" "num_node ?g3 = num_node g" "Sorted ?g3 = Sorted g"
      by simp_all
    ultimately show ?thesis
      by blast
  qed
qed

theorem realizeActivationType_output_count_witness:
  "realizeActivationType 0 [0] fanout_graph \<noteq> Inl undefined_behaviour
   \<and> (case realizeActivationType 0 [0] fanout_graph of
        Inl e \<Rightarrow> False
      | Inr (st, g') \<Rightarrow> st = ML_ERROR_INVALID_PARAMETER \<and> adj g' = [[node 0]] \<and> num_node g' = 1)"
proof -
  have h: "0 < length (heap fanout_graph)
   \<and> activation_type (heap fanout_graph ! 0) \<noteq> ACT_NONE
   \<and> activation_type (heap fanout_graph ! 0) \<noteq> ACT_UNKNOWN
   \<and> ltype (heap fanout_graph ! 0) \<noteq> ActivationLayer_type
   \<and> num_outputs (heap fanout_graph ! 0) \<noteq> 1"
    by (simp add: fanout_graph_def empty_graph_def dense_layer_def createLayer_def
        ActivationLayer_type_def)
  have "adj fanout_graph = [[node 0]]" "num_node fanout_graph = 1"
    by (simp_all add: fanout_graph_def empty_graph_def)
  with realizeActivationType_output_count [of 0 fanout_graph "[0]"] h show ?thesis
    by auto
qed

lemma ensureName_keep:
  "name (heap g ! a) \<noteq> [] \<Longrightarrow> name (heap g ! a) |\<notin>| layer_names g
     \<Longrightarrow> ensureName a p False g = g"
  by (simp add: ensureName_def)

lemma realizeMultiInputType_fanin:
  "current < length (heap g)
   \<and> num_inputs (heap g ! current) = 3
   \<and> length (input_layers (heap g ! current)) = 3
   \<longrightarrow> (\<exists>g'. realizeMultiInputType current g = (ML_ERROR_NONE, g')
          \<and> adj g' = adj g @ [[\<lparr>layer = length (heap g), index = num_node g\<rparr>]]
          \<and> num_node g' = Suc (num_node g)
          \<and> length (heap g') = Suc (length (heap g))
          \<and> ltype (heap g' ! length (heap g)) = AdditionLayer_type
          \<and> input_layers (heap g' ! length (heap g)) = input_layers (heap g ! current)
          \<and> num_inputs (heap g' ! length (heap g)) = 3
          \<and> num_outputs (heap g' ! length (heap g)) = 1
          \<and> num_inputs (heap g' ! current) = 1
          \<and> input_layers (heap g' ! current) = [name (heap g' ! length (heap g))]
          \<and> name (heap g' ! length (heap g)) \<noteq> []
          \<and> (\<forall>b. b < length (heap g) \<and> b \<noteq> current \<longrightarrow> heap g' ! b = heap g ! b)
          \<and> heap g' ! current =
                (heap g ! current)\<lparr>num_inputs := 1,
                   input_layers := [name (heap g' ! length (heap g))]\<rparr>)"
proof (intro impI, elim conjE)
  assume cur: "current < length (heap g)"
    and n3: "num_inputs (heap g ! current) = 3"
    and l3: "length (input_layers (heap g ! current)) = 3"
  let ?a = "length (heap g)"
  let ?g1 = "g\<lparr>heap := heap g @ [createLayer AdditionLayer_type]\<rparr>"
  let ?g2 = "ensureName ?a (name (heap ?g1 ! current)) False ?g1"
  let ?g3 = "heap_upd ?a
                   (\<lambda>l. l\<lparr>num_inputs := num_inputs (heap ?g2 ! current),
                          input_dim := resize (num_inputs (heap ?g2 ! current)) (input_dim l),
                          input_layers := input_layers (heap ?g2 ! current)\<rparr>) ?g2"
  let ?g4 = "heap_upd current
                   (\<lambda>l. l\<lparr>num_inputs := 1, input_layers := [name (heap ?g3 ! ?a)]\<rparr>) ?g3"
  let ?g' = "addLayerNode ?a ?g4"
  have ne: "current \<noteq> ?a"
    using cur by simp
  have a1: "?a < length (heap ?g1)"
    by simp
  have cur1: "heap ?g1 ! current = heap g ! current"
    using cur by (simp add: nth_append)
  have cur2: "heap ?g2 ! current = heap g ! current"
    using ne cur1 by simp
  have a2: "heap ?g2 ! ?a = (createLayer AdditionLayer_type)\<lparr>name := name (heap ?g2 ! ?a)\<rparr>"
    using ensureName_same[OF a1, of "name (heap ?g1 ! current)" False] by simp
  have unused: "name (heap ?g2 ! ?a) \<noteq> []" "name (heap ?g2 ! ?a) |\<notin>| layer_names g"
    using ensureName_unused[OF a1, of "name (heap ?g1 ! current)" False] by simp_all
  have res: "realizeMultiInputType current g = (ML_ERROR_NONE, ?g')"
    using n3 by (simp add: realizeMultiInputType_def alloc_def Let_def)
  have len4: "length (heap ?g4) = Suc ?a"
    by simp
  have a4: "heap ?g4 ! ?a = (heap ?g2 ! ?a)\<lparr>num_inputs := 3,
              input_dim := resize 3 (input_dim (heap ?g2 ! ?a)),
              input_layers := input_layers (heap g ! current)\<rparr>"
    using ne cur2 n3 by simp
  have name4: "name (heap ?g4 ! ?a) = name (heap ?g2 ! ?a)"
    using a4 by simp
  have keep: "ensureName ?a [] False ?g4 = ?g4"
    using unused name4 by (intro ensureName_keep) simp_all
  have g': "?g' = ?g4\<lparr>adj := adj ?g4 @ [[\<lparr>layer = ?a, index = num_node ?g4\<rparr>]],
                     num_node := Suc (num_node ?g4)\<rparr>"
    using keep by (simp add: addLayerNode_def Let_def)
  have heap': "heap ?g' = heap ?g4"
    by (subst g') simp
  have c4: "heap ?g4 ! current = (heap g ! current)\<lparr>num_inputs := 1,
              input_layers := [name (heap ?g2 ! ?a)]\<rparr>"
    using ne cur cur2 by simp
  have adj': "adj ?g' = adj g @ [[\<lparr>layer = ?a, index = num_node g\<rparr>]]"
      "num_node ?g' = Suc (num_node g)"
    by (subst g', simp)+
  have other: "\<forall>b. b < length (heap g) \<and> b \<noteq> current \<longrightarrow> heap ?g' ! b = heap g ! b"
    unfolding heap' by (auto simp: nth_append)
  have ty: "ltype (heap ?g4 ! ?a) = AdditionLayer_type" "num_outputs (heap ?g4 ! ?a) = 1"
    unfolding a4 by (subst a2, simp add: createLayer_def)+
  show "\<exists>g'. realizeMultiInputType current g = (ML_ERROR_NONE, g')
          \<and> adj g' = adj g @ [[\<lparr>layer = length (heap g), index = num_node g\<rparr>]]
          \<and> num_node g' = Suc (num_node g)
          \<and> length (heap g') = Suc (length (heap g))
          \<and> ltype (heap g' ! length (heap g)) = AdditionLayer_type
          \<and> input_layers (heap g' ! length (heap g)) = input_layers (heap g ! current)
          \<and> num_inputs (heap g' ! length (heap g)) = 3
          \<and> num_outputs (heap g' ! length (heap g)) = 1
          \<and> num_inputs (heap g' ! current) = 1
          \<and> input_layers (heap g' ! current) = [name (heap g' ! length (heap g))]
          \<and> name (heap g' ! length (heap g)) \<noteq> []
          \<and> (\<forall>b. b < length (heap g) \<and> b \<noteq> current \<longrightarrow> heap g' ! b = heap g ! b)
          \<and> heap g' ! current =
                (heap g ! current)\<lparr>num_inputs := 1,
                   input_layers := [name (heap g' ! length (heap g))]\<rparr>"
    apply (rule exI[of _ ?g'])
    apply (intro conjI)
    subgoal by (rule res)
    subgoal by (rule adj'(1))
    subgoal by (rule adj'(2))
    subgoal unfolding heap' by (rule len4)
    subgoal unfolding heap' by (rule ty(1))
    subgoal unfolding heap' a4 by simp
    subgoal unfolding heap' a4 by simp
    subgoal unfolding heap' by (rule ty(2))
    subgoal unfolding heap' c4 by simp
    subgoal unfolding heap' c4 name4 by simp
    subgoal unfolding heap' name4 by (rule unused(1))
    subgoal by (rule other)
    subgoal unfolding heap' c4 name4 by simp
    done
qed

lemma addLayerNode_fields:
  "adj (addLayerNode a g) = adj g @ [[\<lparr>layer = a, index = num_node g\<rparr>]]"
  "num_node (addLayerNode a g) = Suc (num_node g)"
  "heap (addLayerNode a g) = heap (ensureName a [] False g)"
  "Sorted (addLayerNode a g) = Sorted g"
  "layer_names (addLayerNode a g) = layer_names g"
  "aliased (addLayerNode a g) = aliased g"
  "untracked (addLayerNode a g) = untracked g"
  by (simp_all add: addLayerNode_def Let_def)

lemma ensureName_keeps_fields:
  "ltype (heap (ensureName a p f g) ! b) = ltype (heap g ! b)"
  "activation_type (heap (ensureName a p f g) ! b) = activation_type (heap g ! b)"
  "num_outputs (heap (ensureName a p f g) ! b) = num_outputs (heap g ! b)"
  "num_inputs (heap (ensureName a p f g) ! b) = num_inputs (heap g ! b)"
  "input_layers (heap (ensureName a p f g) ! b) = input_layers (heap g ! b)"
  "output_layers (heap (ensureName a p f g) ! b) = output_layers (heap g ! b)"
  "flatten (heap (ensureName a p f g) ! b) = flatten (heap g ! b)"
  "trainable (heap (ensureName a p f g) ! b) = trainable (heap g ! b)"
  "input_dim (heap (ensureName a p f g) ! b) = input_dim (heap g ! b)"
  "loss_type (heap (ensureName a p f g) ! b) = loss_type (heap g ! b)"
proof -
  obtain n c where e: "ensureName a p f g =
     g\<lparr>heap := (heap g)[a := (heap g ! a)\<lparr>name := n\<rparr>], def_name_count := c\<rparr>"
    using ensureName_frame by blast
  have "\<exists>m. heap (ensureName a p f g) ! b = (heap g ! b)\<lparr>name := m\<rparr>"
  proof (cases "b = a \<and> a < length (heap g)")
    case True
    then show ?thesis unfolding e by auto
  next
    case False
    then have "heap (ensureName a p f g) ! b = (heap g ! b)\<lparr>name := name (heap g ! b)\<rparr>"
      unfolding e by (cases "b = a") (auto simp: list_update_beyond)
    then show ?thesis ..
  qed
  then obtain m where m: "heap (ensureName a p f g) ! b = (heap g ! b)\<lparr>name := m\<rparr>" ..
  show "ltype (heap (ensureName a p f g) ! b) = ltype (heap g ! b)"
  "activation_type (heap (ensureName a p f g) ! b) = activation_type (heap g ! b)"
  "num_outputs (heap (ensureName a p f g) ! b) = num_outputs (heap g ! b)"
  "num_inputs (heap (ensureName a p f g) ! b) = num_inputs (heap g ! b)"
  "input_layers (heap (ensureName a p f g) ! b) = input_layers (heap g ! b)"
  "output_layers (heap (ensureName a p f g) ! b) = output_layers (heap g ! b)"
  "flatten (heap (ensureName a p f g) ! b) = flatten (heap g ! b)"
  "trainable (heap (ensureName a p f g) ! b) = trainable (heap g ! b)"
  "input_dim (heap (ensureName a p f g) ! b) = input_dim (heap g ! b)"
  "loss_type (heap (ensureName a p f g) ! b) = loss_type (heap g ! b)"
    unfolding m by simp_all
qed

lemma setGraphNode_step_fanin:
  assumes cur: "current < length (heap g)"
    and n3: "num_inputs (heap g ! current) = 3"
    and l3: "length (input_layers (heap g ! current)) = 3"
    and ty: "ltype (heap g ! current) \<noteq> AdditionLayer_type"
            "ltype (heap g ! current) \<noteq> ConcatLayer_type"
    and act: "activation_type (heap g ! current) = ACT_NONE"
    and out: "num_outputs (heap g ! current) = 1"
    and fl: "\<not> flatten (heap g ! current)"
  shows "\<exists>g''. setGraphNode_step layers current g = Inr (ML_ERROR_NONE, g'')
          \<and> adj g'' = adj g @ [[\<lparr>layer = length (heap g), index = num_node g\<rparr>],
                                [\<lparr>layer = current, index = Suc (num_node g)\<rparr>]]
          \<and> num_node g'' = Suc (Suc (num_node g))
          \<and> ltype (heap g'' ! length (heap g)) = AdditionLayer_type
          \<and> input_layers (heap g'' ! length (heap g)) = input_layers (heap g ! current)
          \<and> num_inputs (heap g'' ! current) = 1
          \<and> input_layers (heap g'' ! current) = [name (heap g'' ! length (heap g))]"
proof -
  let ?a = "length (heap g)"
  obtain g' where g': "realizeMultiInputType current g = (ML_ERROR_NONE, g')"
      "adj g' = adj g @ [[\<lparr>layer = ?a, index = num_node g\<rparr>]]"
      "num_node g' = Suc (num_node g)"
      "length (heap g') = Suc ?a"
      "ltype (heap g' ! ?a) = AdditionLayer_type"
      "input_layers (heap g' ! ?a) = input_layers (heap g ! current)"
      "num_inputs (heap g' ! current) = 1"
      "input_layers (heap g' ! current) = [name (heap g' ! ?a)]"
    and fr: "heap g' ! current =
                (heap g ! current)\<lparr>num_inputs := 1, input_layers := [name (heap g' ! ?a)]\<rparr>"
    using realizeMultiInputType_fanin[of current g] cur n3 l3 by blast
  let ?g3 = "addLayerNode current g'"
  have ne: "?a \<noteq> current"
    using cur by simp
  have same: "ltype (heap ?g3 ! current) = ltype (heap g ! current)"
    "activation_type (heap ?g3 ! current) = ACT_NONE"
    "num_outputs (heap ?g3 ! current) = 1"
    "\<not> flatten (heap ?g3 ! current)"
    using fr act out fl by (auto simp: addLayerNode_fields ensureName_keeps_fields)
  have a3: "heap ?g3 ! ?a = heap g' ! ?a"
    using ne by (simp add: addLayerNode_fields)
  have ra: "realizeActivationType current layers ?g3 = Inr (ML_ERROR_NONE, ?g3)"
    using same by (simp add: realizeActivationType_def)
  have ro: "realizeMultiOutputType current layers ?g3 = (ML_ERROR_NONE, ?g3)"
    using same by (simp add: realizeMultiOutputType_def)
  have "setGraphNode_step layers current g = Inr (ML_ERROR_NONE, ?g3)"
    using l3 ty g'(1) ra ro same
    by (simp add: setGraphNode_step_def NN_RETURN_STATUS_def Let_def)
  moreover have "adj ?g3 = adj g @ [[\<lparr>layer = ?a, index = num_node g\<rparr>],
                                [\<lparr>layer = current, index = Suc (num_node g)\<rparr>]]"
    "num_node ?g3 = Suc (Suc (num_node g))"
    using g'(2,3) by (simp_all add: addLayerNode_fields)
  moreover have "ltype (heap ?g3 ! ?a) = AdditionLayer_type"
    "input_layers (heap ?g3 ! ?a) = input_layers (heap g ! current)"
    unfolding a3 using g'(5,6) by simp_all
  moreover have "num_inputs (heap ?g3 ! current) = 1"
    "input_layers (heap ?g3 ! current) = [name (heap ?g3 ! ?a)]"
    unfolding a3 using g'(7,8) by (simp_all add: addLayerNode_fields ensureName_keeps_fields)
  ultimately show ?thesis
    by blast
qed

text \<open>
  Claim C7. For a layer that declares three inputs, \<open>realizeMultiInputType\<close> succeeds
  and appends exactly one node. The new node wraps a new addition layer that has the
  three input names of the layer, in their order, an input count of three and an output
  count of one. The layer itself is left with an input count of one and a single input
  name, the name of the new addition layer. \<open>setGraphNode\<close> makes this call for every
  layer that is neither an addition nor a concatenation layer: when such a layer needs
  no other adapter, its step of the loop appends the combiner node and then the node of
  the layer, and nothing else.
\<close>

theorem realizeMultiInputType_three_inputs:
  "current < length (heap g)
   \<and> num_inputs (heap g ! current) = 3
   \<and> length (input_layers (heap g ! current)) = 3
   \<longrightarrow>
     (\<exists>g'. realizeMultiInputType current g = (ML_ERROR_NONE, g')
          \<and> adj g' = adj g @ [[\<lparr>layer = length (heap g), index = num_node g\<rparr>]]
          \<and> num_node g' = Suc (num_node g)
          \<and> ltype (heap g' ! length (heap g)) = AdditionLayer_type
          \<and> input_layers (heap g' ! length (heap g)) = input_layers (heap g ! current)
          \<and> num_inputs (heap g' ! length (heap g)) = 3
          \<and> num_outputs (heap g' ! length (heap g)) = 1
          \<and> num_inputs (heap g' ! current) = 1
          \<and> input_layers (heap g' ! current) = [name (heap g' ! length (heap g))])
   \<and> (ltype (heap g ! current) \<noteq> AdditionLayer_type
        \<and> ltype (heap g ! current) \<noteq> ConcatLayer_type
        \<and> activation_type (heap g ! current) = ACT_NONE
        \<and> num_outputs (heap g ! current) = 1
        \<and> \<not> flatten (heap g ! current)
        \<longrightarrow>
        (\<exists>g''. setGraphNode_step layers current g = Inr (ML_ERROR_NONE, g'')
          \<and> adj g'' = adj g @ [[\<lparr>layer = length (heap g), index = num_node g\<rparr>],
                                [\<lparr>layer = current, index = Suc (num_node g)\<rparr>]]
          \<and> num_node g'' = Suc (Suc (num_node g))
          \<and> ltype (heap g'' ! length (heap g)) = AdditionLayer_type
          \<and> input_layers (heap g'' ! length (heap g)) = input_layers (heap g ! current)
          \<and> num_inputs (heap g'' ! current) = 1
          \<and> input_layers (heap g'' ! current) = [name (heap g'' ! length (heap g))]))"
proof (intro impI conjI, goal_cases)
  case 1
  then show ?case
    using realizeMultiInputType_fanin[of current g] by blast
next
  case 2
  then show ?case
    using setGraphNode_step_fanin[of current g layers] by blast
qed

lemma fanin_graph_simps:
  "heap fanin_graph ! 0 = (createLayer ''fully_connected'')
                              \<lparr>name := ''m'', input_layers := [''a'', ''b'', ''c''],
                               num_inputs := 3\<rparr>"
  "length (heap fanin_graph) = 1" "adj fanin_graph = []" "num_node fanin_graph = 0"
  by (simp_all add: fanin_graph_def empty_graph_def)

theorem realizeMultiInputType_three_inputs_witness:
  "(case realizeMultiInputType 0 fanin_graph of
      (st, g') \<Rightarrow> st = ML_ERROR_NONE \<and> adj g' = [[\<lparr>layer = 1, index = 0\<rparr>]]
         \<and> input_layers (heap g' ! 1) = [''a'', ''b'', ''c'']
         \<and> num_outputs (heap g' ! 1) = 1
         \<and> input_layers (heap g' ! 0) = [name (heap g' ! 1)])
   \<and> (case setGraphNode_step [0] 0 fanin_graph of
        Inl e \<Rightarrow> False
      | Inr (st, g'') \<Rightarrow> st = ML_ERROR_NONE
         \<and> adj g'' = [[\<lparr>layer = 1, index = 0\<rparr>], [\<lparr>layer = 0, index = 1\<rparr>]]
         \<and> input_layers (heap g'' ! 0) = [name (heap g'' ! 1)])"
proof -
  have h: "0 < length (heap fanin_graph)
   \<and> num_inputs (heap fanin_graph ! 0) = 3
   \<and> length (input_layers (heap fanin_graph ! 0)) = 3"
    by (simp add: fanin_graph_simps)
  have h2: "ltype (heap fanin_graph ! 0) \<noteq> AdditionLayer_type
        \<and> ltype (heap fanin_graph ! 0) \<noteq> ConcatLayer_type
        \<and> activation_type (heap fanin_graph ! 0) = ACT_NONE
        \<and> num_outputs (heap fanin_graph ! 0) = 1
        \<and> \<not> flatten (heap fanin_graph ! 0)"
    by (simp add: fanin_graph_simps createLayer_def AdditionLayer_type_def ConcatLayer_type_def)
  have i: "input_layers (heap fanin_graph ! 0) = [''a'', ''b'', ''c'']"
    by (simp add: fanin_graph_simps)
  from realizeMultiInputType_three_inputs [of 0 fanin_graph "[0]"] h h2 i show ?thesis
    by (auto simp: fanin_graph_simps(2-))
qed

section \<open>Names of the nodes after a build\<close>

text \<open>
  Claim C3 says that no two nodes of a built graph share a name, compared without regard to
  case. The build below succeeds on three layers of which the first two are both named
  \<open>a\<close>, and on three layers of which the first two are named \<open>a\<close> and \<open>A\<close>: the graph
  keeps both names as they are. \<open>ensureName\<close> looks names up in \<open>layer_names\<close>, to which
  nothing is ever added, and the lookup is exact while node lookup ignores case.
\<close>

theorem build_keeps_duplicate_names:
  "map_option (map_sum id (\<lambda>(st, g). (st, node_names g, sorted_names g)))
     (build 3 [0, 1, 2] LOSS_NONE (two_inputs_graph ''a'' ''a''))
     = Some (Inr (ML_ERROR_NONE, [''a'', ''a'', ''c''], [''a'', ''a'', ''c'']))
   \<and> map_option (map_sum id (\<lambda>(st, g). (st, node_names g, sorted_names g)))
     (build 3 [0, 1, 2] LOSS_NONE (two_inputs_graph ''a'' ''A''))
     = Some (Inr (ML_ERROR_NONE, [''a'', ''A'', ''c''], [''A'', ''a'', ''c'']))
   \<and> istrequal ''a'' ''A''"
  by code_simp

section \<open>Correctness of the topological sort\<close>

lemma set_enumerate_0: "set (enumerate 0 xs) = {(i, xs ! i) | i. i < length xs}"
  by (auto simp: in_set_enumerate_eq)

lemma in_edge_list:
  "(u, v) \<in> set (edge_list g) \<longleftrightarrow> u < length (adj g) \<and> v \<in> index ` set (tl (adj g ! u))"
  unfolding edge_list_def set_concat set_map set_enumerate_0 by auto

lemma wf_adj_iff:
  "wf_adj g \<longleftrightarrow>
     length (adj g) = num_node g
     \<and> (\<forall>u < num_node g. adj g ! u \<noteq> [] \<and> index (hd (adj g ! u)) = u
           \<and> (\<forall>m \<in> set (adj g ! u). index m < num_node g))"
  unfolding wf_adj_def list_all_iff set_enumerate_0 by auto

lemma getLayerNode_loop_wf:
  "(\<And>i. i < length ls \<Longrightarrow> ls ! i \<noteq> [] \<and> index (hd (ls ! i)) = k + i)
     \<Longrightarrow> k \<le> u \<Longrightarrow> u < k + length ls
     \<Longrightarrow> getLayerNode_loop ls (length ls) u = Inr (hd (ls ! (u - k)))"
proof (induction ls arbitrary: k)
  case Nil
  then show ?case by simp
next
  case (Cons l ls)
  from Cons.prems(1)[of 0] obtain x xs where l: "l = x # xs" "index x = k"
    by (cases l) auto
  show ?case
  proof (cases "u = k")
    case True
    then show ?thesis using l by simp
  next
    case False
    have "getLayerNode_loop ls (length ls) u = Inr (hd (ls ! (u - Suc k)))"
    proof (rule Cons.IH)
      fix i assume "i < length ls"
      then show "ls ! i \<noteq> [] \<and> index (hd (ls ! i)) = Suc k + i"
        using Cons.prems(1)[of "Suc i"] by simp
    next
      show "Suc k \<le> u" using False Cons.prems(2) by simp
      show "u < Suc k + length ls" using Cons.prems(3) by simp
    qed
    moreover have "u - k = Suc (u - Suc k)"
      using False Cons.prems(2) by simp
    then have "(l # ls) ! (u - k) = ls ! (u - Suc k)"
      by simp
    ultimately show ?thesis
      using l False by simp
  qed
qed

lemma getLayerNode_wf:
  assumes "wf_adj g" "u < num_node g"
  shows "getLayerNode g u = Inr (hd (adj g ! u))"
proof -
  have "getLayerNode_loop (adj g) (length (adj g)) u = Inr (hd (adj g ! (u - 0)))"
    using assms by (intro getLayerNode_loop_wf) (auto simp: wf_adj_iff)
  then show ?thesis
    using assms by (simp add: getLayerNode_def wf_adj_iff)
qed

lemma topo_nth:
  "topo E S \<Longrightarrow> i < length S \<Longrightarrow> (index (S ! i), v) \<in> E
     \<Longrightarrow> \<exists>j. i < j \<and> j < length S \<and> index (S ! j) = v"
proof (induction S arbitrary: i)
  case Nil
  then show ?case by simp
next
  case (Cons x xs)
  show ?case
  proof (cases i)
    case 0
    with Cons.prems have "v \<in> index ` set xs" by auto
    then obtain j where "j < length xs" "index (xs ! j) = v"
      by (auto simp: in_set_conv_nth)
    then show ?thesis using 0 by (intro exI[of _ "Suc j"]) simp
  next
    case (Suc i')
    with Cons obtain j where "i' < j" "j < length xs" "index (xs ! j) = v"
      by fastforce
    then show ?thesis using Suc by (intro exI[of _ "Suc j"]) simp
  qed
qed

lemma unvisited_finite [simp]: "finite (unvisited V)"
  by (simp add: unvisited_def)

lemma unvisited_mono:
  assumes "length V' = length V" "\<forall>x < length V. V ! x \<longrightarrow> V' ! x"
  shows "card (unvisited V') \<le> card (unvisited V)"
  by (rule card_mono) (use assms in \<open>auto simp: unvisited_def\<close>)

lemma unvisited_mark:
  assumes "ith < length V" "\<not> V ! ith"
  shows "card (unvisited (V[ith := True])) < card (unvisited V)"
proof (rule psubset_card_mono)
  show "finite (unvisited V)" by simp
  have "ith \<in> unvisited V" "ith \<notin> unvisited (V[ith := True])"
    using assms by (auto simp: unvisited_def)
  moreover have "unvisited (V[ith := True]) \<subseteq> unvisited V"
  proof
    fix x assume "x \<in> unvisited (V[ith := True])"
    then have x: "x < length V" "\<not> V[ith := True] ! x"
      by (simp_all add: unvisited_def)
    then have "x \<noteq> ith" by auto
    with x show "x \<in> unvisited V" by (simp add: unvisited_def)
  qed
  ultimately show "unvisited (V[ith := True]) \<subset> unvisited V"
    by blast
qed

lemma dfs_post_refl: "dfs_inv g V S \<Longrightarrow> dfs_post g V S V S"
  by (simp add: dfs_post_def)

lemma dfs_post_trans:
  "dfs_post g V S V1 S1 \<Longrightarrow> dfs_post g V1 S1 V2 S2 \<Longrightarrow> dfs_post g V S V2 S2"
  unfolding dfs_post_def by (intro conjI; elim conjE) (simp, simp, blast, blast)

lemma loop_from_util:
  assumes acyc: "acyclic (set (edge_list g))"
    and util: "\<And>ith V S. dfs_inv g V S \<Longrightarrow> ith < num_node g \<Longrightarrow> \<not> V ! ith
        \<Longrightarrow> \<forall>x \<in> gray V S. (x, ith) \<in> (set (edge_list g))\<^sup>+
        \<Longrightarrow> card (unvisited V) \<le> f
        \<Longrightarrow> \<exists>V' S'. topologicalSortUtil f g ith (V, S) = Some (Inr (V', S'))
              \<and> dfs_post g V S V' S' \<and> ith \<in> index ` set S'"
  shows "dfs_inv g V S \<Longrightarrow> u \<in> gray V S
     \<Longrightarrow> \<forall>x \<in> gray V S. x = u \<or> (x, u) \<in> (set (edge_list g))\<^sup>+
     \<Longrightarrow> \<forall>m \<in> set ns. index m < num_node g \<and> (index m = u \<or> (u, index m) \<in> set (edge_list g))
     \<Longrightarrow> card (unvisited V) \<le> f
     \<Longrightarrow> \<exists>V' S'. topologicalSortUtil_loop f g ns (V, S) = Some (Inr (V', S'))
           \<and> dfs_post g V S V' S'
           \<and> (\<forall>m \<in> set ns. index m \<noteq> u \<longrightarrow> index m \<in> index ` set S')"
proof (induction ns arbitrary: V S)
  case Nil
  then show ?case
    by (simp add: dfs_post_refl)
next
  case (Cons m ns)
  let ?E = "set (edge_list g)"
  have len: "length V = num_node g"
    using Cons.prems(1) by (simp add: dfs_inv_def)
  have m: "index m < num_node g" "index m = u \<or> (u, index m) \<in> ?E"
    using Cons.prems(4) by auto
  have rest: "\<forall>m \<in> set ns. index m < num_node g \<and> (index m = u \<or> (u, index m) \<in> ?E)"
    using Cons.prems(4) by auto
  show ?case
  proof (cases "V ! index m")
    case True
    obtain V' S' where r: "topologicalSortUtil_loop f g ns (V, S) = Some (Inr (V', S'))"
        "dfs_post g V S V' S'" "\<forall>m \<in> set ns. index m \<noteq> u \<longrightarrow> index m \<in> index ` set S'"
      using Cons.IH[OF Cons.prems(1,2,3) rest Cons.prems(5)] by blast
    have "index m \<in> index ` set S'" if "index m \<noteq> u"
    proof -
      have e: "(u, index m) \<in> ?E" using m(2) that by simp
      have "index m \<notin> gray V S"
      proof
        assume "index m \<in> gray V S"
        with Cons.prems(3) that have "(index m, u) \<in> ?E\<^sup>+" by blast
        with e have "(index m, index m) \<in> ?E\<^sup>+" by (rule trancl_into_trancl[rotated])
        with acyc show False by (simp add: acyclic_def)
      qed
      then have "index m \<in> index ` set S"
        using True m(1) len by (simp add: gray_def)
      with r(2) show ?thesis by (auto simp: dfs_post_def)
    qed
    moreover have "topologicalSortUtil_loop f g (m # ns) (V, S) = Some (Inr (V', S'))"
      using True m(1) len r(1) by simp
    ultimately show ?thesis
      using r(2,3) by auto
  next
    case False
    have u: "u < length V" "V ! u" "u \<notin> index ` set S"
      using Cons.prems(2) by (simp_all add: gray_def)
    have mu: "index m \<noteq> u" using False u(2) by auto
    then have e: "(u, index m) \<in> ?E" using m(2) by simp
    have pre: "\<forall>x \<in> gray V S. (x, index m) \<in> ?E\<^sup>+"
    proof
      fix x assume "x \<in> gray V S"
      with Cons.prems(3) have "x = u \<or> (x, u) \<in> ?E\<^sup>+" by blast
      then show "(x, index m) \<in> ?E\<^sup>+"
        using e by (auto intro: trancl_into_trancl)
    qed
    obtain V1 S1 where r1: "topologicalSortUtil f g (index m) (V, S) = Some (Inr (V1, S1))"
        "dfs_post g V S V1 S1" "index m \<in> index ` set S1"
      using util[OF Cons.prems(1) m(1) False pre Cons.prems(5)] by blast
    have inv1: "dfs_inv g V1 S1" and gr1: "gray V1 S1 = gray V S"
      and mono1: "\<forall>x < num_node g. V ! x \<longrightarrow> V1 ! x"
      using r1(2) by (simp_all add: dfs_post_def)
    have len1: "length V1 = num_node g" using inv1 by (simp add: dfs_inv_def)
    have card1: "card (unvisited V1) \<le> f"
      using unvisited_mono[of V1 V] len len1 mono1 Cons.prems(5) by simp
    obtain V' S' where r: "topologicalSortUtil_loop f g ns (V1, S1) = Some (Inr (V', S'))"
        "dfs_post g V1 S1 V' S'" "\<forall>m \<in> set ns. index m \<noteq> u \<longrightarrow> index m \<in> index ` set S'"
      using Cons.IH[OF inv1 _ _ rest card1] Cons.prems(2,3) gr1 by auto
    have "topologicalSortUtil_loop f g (m # ns) (V, S) = Some (Inr (V', S'))"
      using False m(1) len r1(1) r(1) by simp
    moreover have "dfs_post g V S V' S'"
      using r1(2) r(2) by (rule dfs_post_trans)
    moreover have "index m \<in> index ` set S'"
      using r1(3) r(2) by (auto simp: dfs_post_def)
    ultimately show ?thesis
      using r(3) by auto
  qed
qed

lemma util_ok:
  assumes wf: "wf_adj g" and acyc: "acyclic (set (edge_list g))"
  shows "dfs_inv g V S \<Longrightarrow> ith < num_node g \<Longrightarrow> \<not> V ! ith
        \<Longrightarrow> \<forall>x \<in> gray V S. (x, ith) \<in> (set (edge_list g))\<^sup>+
        \<Longrightarrow> card (unvisited V) \<le> f
        \<Longrightarrow> \<exists>V' S'. topologicalSortUtil f g ith (V, S) = Some (Inr (V', S'))
              \<and> dfs_post g V S V' S' \<and> ith \<in> index ` set S'"
proof (induction f arbitrary: ith V S)
  case 0
  have "ith \<in> unvisited V"
    using 0 by (simp add: unvisited_def dfs_inv_def)
  then have "card (unvisited V) \<noteq> 0"
    by (auto simp: card_eq_0_iff)
  with 0 show ?case by simp
next
  case (Suc f)
  let ?E = "set (edge_list g)"
  let ?V1 = "V[ith := True]"
  let ?nd = "hd (adj g ! ith)"
  have len: "length V = num_node g" and dist: "distinct (map index S)"
    and vis: "\<forall>x \<in> set S. index x < num_node g \<and> V ! index x" and tp: "topo ?E S"
    using Suc.prems(1) by (simp_all add: dfs_inv_def)
  have ladj: "length (adj g) = num_node g"
    and nd: "adj g ! ith \<noteq> []" "index ?nd = ith"
    and rng: "\<forall>m \<in> set (adj g ! ith). index m < num_node g"
    using wf Suc.prems(2) by (simp_all add: wf_adj_iff)
  have notS: "ith \<notin> index ` set S"
    using vis Suc.prems(3) by auto
  have V1: "?V1 ! x = (x = ith \<or> V ! x)" if "x < num_node g" for x
    using that len by (cases "x = ith") simp_all
  have inv1: "dfs_inv g ?V1 S"
    unfolding dfs_inv_def
  proof (intro conjI ballI)
    show "length ?V1 = num_node g" using len by simp
    show "distinct (map index S)" by (rule dist)
    show "topo ?E S" by (rule tp)
  next
    fix x assume "x \<in> set S"
    with vis have "index x < num_node g" "V ! index x" by auto
    then show "index x < num_node g" "?V1 ! index x" by (simp_all add: V1)
  qed
  have gr1: "gray ?V1 S = insert ith (gray V S)"
  proof (intro set_eqI iffI)
    fix x assume "x \<in> gray ?V1 S"
    then have x: "x < num_node g" "?V1 ! x" "x \<notin> index ` set S"
      using len by (simp_all add: gray_def)
    from x(2) have "x = ith \<or> V ! x"
      by (simp add: V1[OF x(1)])
    with x(1,3) show "x \<in> insert ith (gray V S)"
      using len by (auto simp: gray_def)
  next
    fix x assume "x \<in> insert ith (gray V S)"
    then have "x = ith \<or> (x < num_node g \<and> V ! x \<and> x \<notin> index ` set S)"
      using len by (auto simp: gray_def)
    then have x: "x < num_node g" "x = ith \<or> V ! x" "x \<notin> index ` set S"
      using notS Suc.prems(2) by auto
    from x(2) have "?V1 ! x"
      by (simp add: V1[OF x(1)])
    with x(1,3) show "x \<in> gray ?V1 S"
      using len by (simp add: gray_def)
  qed
  have ug: "ith \<in> gray ?V1 S"
    unfolding gr1 by simp
  have pre: "\<forall>x \<in> gray ?V1 S. x = ith \<or> (x, ith) \<in> ?E\<^sup>+"
    unfolding gr1 using Suc.prems(4) by auto
  have ns: "\<forall>m \<in> set (adj g ! ith). index m < num_node g
      \<and> (index m = ith \<or> (ith, index m) \<in> ?E)"
  proof
    fix m assume m: "m \<in> set (adj g ! ith)"
    then have "m = ?nd \<or> m \<in> set (tl (adj g ! ith))"
      using nd(1) by (cases "adj g ! ith") auto
    then have "index m = ith \<or> (ith, index m) \<in> ?E"
      using nd(2) Suc.prems(2) ladj by (auto simp: in_edge_list)
    with rng m show "index m < num_node g \<and> (index m = ith \<or> (ith, index m) \<in> ?E)"
      by simp
  qed
  have card1: "card (unvisited ?V1) \<le> f"
    using unvisited_mark[of ith V] Suc.prems(2,3,5) len by simp
  have utl: "\<And>ith V S. dfs_inv g V S \<Longrightarrow> ith < num_node g \<Longrightarrow> \<not> V ! ith
        \<Longrightarrow> \<forall>x \<in> gray V S. (x, ith) \<in> ?E\<^sup>+
        \<Longrightarrow> card (unvisited V) \<le> f
        \<Longrightarrow> \<exists>V' S'. topologicalSortUtil f g ith (V, S) = Some (Inr (V', S'))
              \<and> dfs_post g V S V' S' \<and> ith \<in> index ` set S'"
    by (rule Suc.IH)
  obtain V' S' where r: "topologicalSortUtil_loop f g (adj g ! ith) (?V1, S) = Some (Inr (V', S'))"
      "dfs_post g ?V1 S V' S'"
      "\<forall>m \<in> set (adj g ! ith). index m \<noteq> ith \<longrightarrow> index m \<in> index ` set S'"
    using loop_from_util[OF acyc utl inv1 ug pre ns card1] by blast
  have inv': "dfs_inv g V' S'" and gr': "gray V' S' = insert ith (gray V S)"
    and mono': "\<forall>x < num_node g. ?V1 ! x \<longrightarrow> V' ! x"
    and sub': "index ` set S \<subseteq> index ` set S'"
    using r(2) gr1 by (simp_all add: dfs_post_def)
  have len': "length V' = num_node g" and dist': "distinct (map index S')"
    and vis': "\<forall>x \<in> set S'. index x < num_node g \<and> V' ! index x" and tp': "topo ?E S'"
    using inv' by (simp_all add: dfs_inv_def)
  have ig: "ith \<in> gray V' S'"
    unfolding gr' by simp
  then have ith': "V' ! ith" "ith \<notin> index ` set S'"
    by (simp_all add: gray_def)
  have gl: "getLayerNode g ith = Inr ?nd"
    using wf Suc.prems(2) by (rule getLayerNode_wf)
  have res: "topologicalSortUtil (Suc f) g ith (V, S) = Some (Inr (V', ?nd # S'))"
    using Suc.prems(2) len ladj r(1) gl by simp
  have succ: "\<forall>v. (ith, v) \<in> ?E \<longrightarrow> v \<in> index ` set S'"
  proof (intro allI impI)
    fix v assume e: "(ith, v) \<in> ?E"
    then obtain m where m: "m \<in> set (tl (adj g ! ith))" "v = index m"
      by (auto simp: in_edge_list)
    have "v \<noteq> ith"
      using e acyc by (auto simp: acyclic_def)
    moreover have "m \<in> set (adj g ! ith)"
      using m(1) nd(1) by (cases "adj g ! ith") auto
    ultimately show "v \<in> index ` set S'"
      using r(3) m(2) by auto
  qed
  have inv'': "dfs_inv g V' (?nd # S')"
    unfolding dfs_inv_def
  proof (intro conjI ballI)
    show "length V' = num_node g" by (rule len')
    show "distinct (map index (?nd # S'))"
      using dist' ith'(2) nd(2) by simp
    show "topo ?E (?nd # S')"
      using tp' succ nd(2) by simp
  next
    fix x assume "x \<in> set (?nd # S')"
    then have "x = ?nd \<or> x \<in> set S'" by simp
    then show "index x < num_node g" "V' ! index x"
      using vis' ith'(1) nd(2) Suc.prems(2) by auto
  qed
  have gr'': "gray V' (?nd # S') = gray V S"
  proof -
    have "gray V' (?nd # S') = gray V' S' - {ith}"
      unfolding gray_def using nd(2) by auto
    moreover have "ith \<notin> gray V S"
      using Suc.prems(3) by (simp add: gray_def)
    ultimately show ?thesis
      unfolding gr' by auto
  qed
  have mono'': "\<forall>x < num_node g. V ! x \<longrightarrow> V' ! x"
  proof (intro allI impI)
    fix x assume x: "x < num_node g" "V ! x"
    then have "?V1 ! x"
      by (simp add: V1)
    with mono' x(1) show "V' ! x" by blast
  qed
  have "dfs_post g V S V' (?nd # S')"
    using inv'' gr'' mono'' sub' by (auto simp: dfs_post_def)
  moreover have "ith \<in> index ` set (?nd # S')"
    using nd(2) by simp
  ultimately show ?case
    using res by blast
qed

lemma topologicalSort_loop_ok:
  assumes wf: "wf_adj g" and acyc: "acyclic (set (edge_list g))"
  shows "dfs_inv g V S \<Longrightarrow> gray V S = {} \<Longrightarrow> \<forall>x < i. V ! x \<Longrightarrow> i + k = num_node g
        \<Longrightarrow> card (unvisited V) \<le> f
        \<Longrightarrow> \<exists>V' S'. topologicalSort_loop f g i k (V, S) = Some (Inr (V', S'))
              \<and> dfs_inv g V' S' \<and> gray V' S' = {} \<and> (\<forall>x < num_node g. V' ! x)
              \<and> index ` set S \<subseteq> index ` set S'"
proof (induction k arbitrary: i V S)
  case 0
  have "i = num_node g" using 0(4) by simp
  then have all: "\<forall>x < num_node g. V ! x" using 0(3) by simp
  have "topologicalSort_loop f g i 0 (V, S) = Some (Inr (V, S))" by simp
  with 0(1,2) all show ?case by blast
next
  case (Suc k)
  have len: "length V = num_node g"
    using Suc.prems(1) by (simp add: dfs_inv_def)
  have i: "i < num_node g" and ik: "Suc i + k = num_node g"
    using Suc.prems(4) by simp_all
  show ?case
  proof (cases "V ! i")
    case True
    have "\<forall>x < Suc i. V ! x"
    proof (intro allI impI)
      fix x assume "x < Suc i"
      then have "x < i \<or> x = i" by arith
      with Suc.prems(3) True show "V ! x" by blast
    qed
    from Suc.IH[OF Suc.prems(1,2) this ik Suc.prems(5)]
    obtain V' S' where r: "topologicalSort_loop f g (Suc i) k (V, S) = Some (Inr (V', S'))"
      "dfs_inv g V' S'" "gray V' S' = {}" "\<forall>x < num_node g. V' ! x"
      "index ` set S \<subseteq> index ` set S'"
      by blast
    have res: "topologicalSort_loop f g i (Suc k) (V, S) = Some (Inr (V', S'))"
      using True i len r(1) by simp
    show ?thesis
      by (intro exI[of _ V'] exI[of _ S'] conjI res r(2) r(3) r(4) r(5))
  next
    case False
    have pre: "\<forall>x \<in> gray V S. (x, i) \<in> (set (edge_list g))\<^sup>+"
      using Suc.prems(2) by simp
    obtain V1 S1 where r1: "topologicalSortUtil f g i (V, S) = Some (Inr (V1, S1))"
        "dfs_post g V S V1 S1" "i \<in> index ` set S1"
      using util_ok[OF wf acyc Suc.prems(1) i False pre Suc.prems(5)] by blast
    have inv1: "dfs_inv g V1 S1" and gr1: "gray V1 S1 = {}"
      and mono1: "\<forall>x < num_node g. V ! x \<longrightarrow> V1 ! x"
      and sub1: "index ` set S \<subseteq> index ` set S1"
      using r1(2) Suc.prems(2) by (simp_all add: dfs_post_def)
    have len1: "length V1 = num_node g"
      using inv1 by (simp add: dfs_inv_def)
    have "\<forall>x \<in> set S1. V1 ! index x"
      using inv1 by (simp add: dfs_inv_def)
    then have vi: "V1 ! i"
      using r1(3) by blast
    have vis1: "\<forall>x < Suc i. V1 ! x"
    proof (intro allI impI)
      fix x assume xs: "x < Suc i"
      show "V1 ! x"
      proof (cases "x = i")
        case True
        with vi show ?thesis by simp
      next
        case False
        with xs have xi: "x < i" by simp
        then have "V ! x" using Suc.prems(3) by blast
        moreover have "x < num_node g" using xi i by simp
        ultimately show ?thesis using mono1 by blast
      qed
    qed
    have card1: "card (unvisited V1) \<le> f"
      using unvisited_mono[of V1 V] len len1 mono1 Suc.prems(5) by simp
    from Suc.IH[OF inv1 gr1 vis1 ik card1]
    obtain V' S' where r: "topologicalSort_loop f g (Suc i) k (V1, S1) = Some (Inr (V', S'))"
      "dfs_inv g V' S'" "gray V' S' = {}" "\<forall>x < num_node g. V' ! x"
      "index ` set S1 \<subseteq> index ` set S'"
      by blast
    have res: "topologicalSort_loop f g i (Suc k) (V, S) = Some (Inr (V', S'))"
      using False i len r1(1) r(1) by simp
    have sub: "index ` set S \<subseteq> index ` set S'"
      using sub1 r(5) by (rule subset_trans)
    show ?thesis
      by (intro exI[of _ V'] exI[of _ S'] conjI res r(2) r(3) r(4) sub)
  qed
qed

lemma countNonTrainableLayersAtBegin_fields [simp]:
  "Sorted (countNonTrainableLayersAtBegin g) = Sorted g"
  "adj (countNonTrainableLayersAtBegin g) = adj g"
  "heap (countNonTrainableLayersAtBegin g) = heap g"
  "num_node (countNonTrainableLayersAtBegin g) = num_node g"
  "aliased (countNonTrainableLayersAtBegin g) = aliased g"
  "untracked (countNonTrainableLayersAtBegin g) = untracked g"
  "layer_names (countNonTrainableLayersAtBegin g) = layer_names g"
  "def_name_count (countNonTrainableLayersAtBegin g) = def_name_count g"
  by (simp_all add: countNonTrainableLayersAtBegin_def)

text \<open>
  Claim C2. On a well-formed adjacency vector whose edge relation is acyclic, and with
  fuel for the depth of the recursion (the number of nodes is enough), \<open>topologicalSort\<close>
  returns. It appends to \<open>Sorted\<close> a sequence in which every node index occurs exactly
  once, and for every edge \<open>(u, v)\<close> of the adjacency vector the position of \<open>u\<close> in that
  sequence is strictly less than the position of \<open>v\<close>.
\<close>

theorem topologicalSort_order:
  "wf_adj g \<and> acyclic (set (edge_list g)) \<and> num_node g \<le> fuel \<longrightarrow>
   (\<exists>g' S. topologicalSort fuel g = Some (Inr g')
      \<and> Sorted g' = Sorted g @ S \<and> adj g' = adj g
      \<and> distinct (map index S) \<and> index ` set S = {..<num_node g}
      \<and> (\<forall>i j. i < length S \<and> j < length S
             \<and> (index (S ! i), index (S ! j)) \<in> set (edge_list g) \<longrightarrow> i < j))"
proof (intro impI, elim conjE)
  assume wf: "wf_adj g" and acyc: "acyclic (set (edge_list g))" and fuel: "num_node g \<le> fuel"
  let ?n = "num_node g"
  let ?V0 = "replicate ?n False"
  have inv0: "dfs_inv g ?V0 []"
    by (simp add: dfs_inv_def)
  have gr0: "gray ?V0 [] = {}"
    by (auto simp: gray_def)
  have "unvisited ?V0 \<subseteq> {..<?n}"
    by (auto simp: unvisited_def)
  then have "card (unvisited ?V0) \<le> card {..<?n}"
    by (intro card_mono) simp_all
  then have card0: "card (unvisited ?V0) \<le> fuel"
    using fuel by simp
  obtain V' S' where r: "topologicalSort_loop fuel g 0 ?n (?V0, []) = Some (Inr (V', S'))"
      "dfs_inv g V' S'" "gray V' S' = {}" "\<forall>x < ?n. V' ! x"
    using topologicalSort_loop_ok[OF wf acyc inv0 gr0 _ _ card0, of 0 ?n] by auto
  let ?g' = "countNonTrainableLayersAtBegin (g\<lparr>Sorted := Sorted g @ S'\<rparr>)"
  have res: "topologicalSort fuel g = Some (Inr ?g')"
    using r(1) by (simp add: topologicalSort_def)
  have len': "length V' = ?n" and dist: "distinct (map index S')"
    and vis: "\<forall>x \<in> set S'. index x < ?n \<and> V' ! index x"
    and tp: "topo (set (edge_list g)) S'"
    using r(2) by (simp_all add: dfs_inv_def)
  have all: "index ` set S' = {..<?n}"
  proof (intro set_eqI iffI)
    fix x assume "x \<in> index ` set S'"
    with vis show "x \<in> {..<?n}" by auto
  next
    fix x assume "x \<in> {..<?n}"
    then have x: "x < ?n" by simp
    with r(4) have "V' ! x" by blast
    then have "x \<in> gray V' S' \<or> x \<in> index ` set S'"
      using x len' by (simp add: gray_def)
    with r(3) show "x \<in> index ` set S'" by simp
  qed
  have ord: "\<forall>i j. i < length S' \<and> j < length S'
             \<and> (index (S' ! i), index (S' ! j)) \<in> set (edge_list g) \<longrightarrow> i < j"
  proof (intro allI impI, elim conjE)
    fix i j assume i: "i < length S'" and j: "j < length S'"
      and e: "(index (S' ! i), index (S' ! j)) \<in> set (edge_list g)"
    obtain j' where j': "i < j'" "j' < length S'" "index (S' ! j') = index (S' ! j)"
      using topo_nth[OF tp i e] by blast
    have "map index S' ! j' = map index S' ! j"
      using j' j by simp
    then have "j' = j"
      using nth_eq_iff_index_eq[OF dist, of j' j] j j'(2) by simp
    with j'(1) show "i < j" by simp
  qed
  have "Sorted ?g' = Sorted g @ S'" "adj ?g' = adj g"
    by simp_all
  with res dist all ord show "\<exists>g' S. topologicalSort fuel g = Some (Inr g')
      \<and> Sorted g' = Sorted g @ S \<and> adj g' = adj g
      \<and> distinct (map index S) \<and> index ` set S = {..<num_node g}
      \<and> (\<forall>i j. i < length S \<and> j < length S
             \<and> (index (S ! i), index (S ! j)) \<in> set (edge_list g) \<longrightarrow> i < j)"
    by blast
qed

lemma chain_graph_edges: "edge_list chain_graph = [(0, 1), (1, 2)]"
  by (simp add: edge_list_def chain_graph_def empty_graph_def node_def)

lemma chain_graph_wf: "wf_adj chain_graph"
  by (simp add: wf_adj_def chain_graph_def empty_graph_def node_def)

lemma chain_graph_acyclic: "acyclic (set (edge_list chain_graph))"
proof (rule acyclicI_order[where f = "\<lambda>x. 3 - x"])
  fix a b :: nat assume "(a, b) \<in> set (edge_list chain_graph)"
  then show "3 - b < 3 - a"
    by (auto simp: chain_graph_edges)
qed

theorem topologicalSort_order_witness:
  "wf_adj chain_graph \<and> acyclic (set (edge_list chain_graph)) \<and> num_node chain_graph \<le> 3
   \<and> (\<exists>g' S. topologicalSort 3 chain_graph = Some (Inr g')
      \<and> Sorted g' = Sorted chain_graph @ S \<and> adj g' = adj chain_graph
      \<and> distinct (map index S) \<and> index ` set S = {..<num_node chain_graph})
   \<and> map_option (map_sum id (\<lambda>g'. map index (Sorted g'))) (topologicalSort 3 chain_graph)
       = Some (Inr [0, 1, 2])"
proof -
  have n: "num_node chain_graph \<le> 3"
    by (simp add: chain_graph_def empty_graph_def)
  have ev: "map_option (map_sum id (\<lambda>g'. map index (Sorted g'))) (topologicalSort 3 chain_graph)
       = Some (Inr [0, 1, 2])"
    by code_simp
  from topologicalSort_order [of chain_graph 3] chain_graph_wf chain_graph_acyclic n
  have "\<exists>g' S. topologicalSort 3 chain_graph = Some (Inr g')
      \<and> Sorted g' = Sorted chain_graph @ S \<and> adj g' = adj chain_graph
      \<and> distinct (map index S) \<and> index ` set S = {..<num_node chain_graph}"
    by blast
  with chain_graph_wf chain_graph_acyclic n ev show ?thesis
    by blast
qed

section \<open>Cross-entropy fusion\<close>

lemma getLayerNode_fields:
  "adj g' = adj g \<Longrightarrow> num_node g' = num_node g \<Longrightarrow> getLayerNode g' u = getLayerNode g u"
  by (simp add: getLayerNode_def)

lemma addLossLayer_attach_ok:
  assumes gl: "getLayerNode g (uint_sub (num_node g) 1) = Inr pn"
    and pv: "layer pn < length (heap g)" and lt: "lt \<noteq> LOSS_UNKNOWN"
  shows "\<exists>g' nm. addLossLayer_attach lt g = Inr (ML_ERROR_NONE, g')
      \<and> adj g' = adj g @ [[\<lparr>layer = length (heap g), index = num_node g\<rparr>]]
      \<and> num_node g' = Suc (num_node g) \<and> Sorted g' = Sorted g
      \<and> length (heap g') = Suc (length (heap g))
      \<and> heap g' ! length (heap g) =
           (createLayer LossLayer_type)
             \<lparr>name := nm, input_layers := [name (heap g ! layer pn)],
              output_layers := [''__exit__''], loss_type := lt\<rparr>
      \<and> heap g' ! layer pn = (heap g ! layer pn)\<lparr>output_layers := [nm], num_outputs := 1\<rparr>
      \<and> (\<forall>b < length (heap g). b \<noteq> layer pn \<longrightarrow> heap g' ! b = heap g ! b)
      \<and> nm \<noteq> []"
proof -
  let ?a = "length (heap g)"
  let ?p = "layer pn"
  let ?g1 = "g\<lparr>heap := heap g @ [createLayer LossLayer_type]\<rparr>"
  let ?g2 = "ensureName ?a [] False ?g1"
  let ?nm = "name (heap ?g2 ! ?a)"
  let ?g3 = "heap_upd ?p (\<lambda>l. l\<lparr>num_outputs := 1, output_layers := [?nm]\<rparr>) ?g2"
  let ?g4 = "heap_upd ?a (\<lambda>l. l\<lparr>num_inputs := 1, input_layers := [name (heap g ! ?p)]\<rparr>) ?g3"
  let ?g5 = "heap_upd ?a
               (\<lambda>l. l\<lparr>num_outputs := 1, output_dim := resize 1 (output_dim l),
                      output_layers := output_layers l @ [''__exit__'']\<rparr>) ?g4"
  let ?g6 = "heap_upd ?a (\<lambda>x. x\<lparr>loss_type := lt\<rparr>) ?g5"
  let ?g' = "addLayerNode ?a ?g6"
  have ne: "?p \<noteq> ?a" using pv by simp
  have a1: "?a < length (heap ?g1)" by simp
  have gl2: "getLayerNode ?g2 (uint_sub (num_node ?g2) 1) = Inr pn"
    using gl by (simp add: getLayerNode_def)
  have a2: "heap ?g2 ! ?a = (createLayer LossLayer_type)\<lparr>name := ?nm\<rparr>"
    using ensureName_same[OF a1, of "[]" False] by simp
  have p2: "heap ?g2 ! ?p = heap g ! ?p"
    using ne pv by (simp add: nth_append)
  have unused: "?nm \<noteq> []" "?nm |\<notin>| layer_names g"
    using ensureName_unused[OF a1, of "[]" False] by simp_all
  have a4: "heap ?g4 ! ?a = (createLayer LossLayer_type)
      \<lparr>name := ?nm, num_inputs := 1, input_layers := [name (heap g ! ?p)]\<rparr>"
    using ne a2 by simp
  have out4: "length (output_layers (heap ?g4 ! ?a)) = 0"
    unfolding a4 by (simp add: createLayer_def)
  have a5: "heap ?g5 ! ?a =
      (heap ?g4 ! ?a)\<lparr>num_outputs := 1, output_dim := resize 1 (output_dim (heap ?g4 ! ?a)),
         output_layers := output_layers (heap ?g4 ! ?a) @ [''__exit__'']\<rparr>"
    by simp
  have a5': "heap ?g5 ! ?a = (createLayer LossLayer_type)
      \<lparr>name := ?nm, input_layers := [name (heap g ! ?p)], output_layers := [''__exit__'']\<rparr>"
    unfolding a5 a4 by (simp add: createLayer_def resize_def)
  have "heap ?g6 ! ?a = (heap ?g5 ! ?a)\<lparr>loss_type := lt\<rparr>"
    by simp
  then have a6: "heap ?g6 ! ?a = (createLayer LossLayer_type)
      \<lparr>name := ?nm, input_layers := [name (heap g ! ?p)],
       output_layers := [''__exit__''], loss_type := lt\<rparr>"
    unfolding a5' .
  have p6: "heap ?g6 ! ?p = (heap g ! ?p)\<lparr>output_layers := [?nm], num_outputs := 1\<rparr>"
    using ne pv p2 by simp
  have o6: "\<forall>b < length (heap g). b \<noteq> ?p \<longrightarrow> heap ?g6 ! b = heap g ! b"
    by (auto simp: nth_append)
  have keep: "ensureName ?a [] False ?g6 = ?g6"
    using unused a6 by (intro ensureName_keep) simp_all
  have g': "?g' = ?g6\<lparr>adj := adj g @ [[\<lparr>layer = ?a, index = num_node g\<rparr>]],
                     num_node := Suc (num_node g)\<rparr>"
    using keep by (simp add: addLayerNode_def Let_def)
  have heap': "heap ?g' = heap ?g6"
    by (subst g') simp
  have res: "addLossLayer_attach lt g = Inr (ML_ERROR_NONE, ?g')"
    using gl gl2 out4 lt
    by (simp add: addLossLayer_attach_def alloc_def Let_def setLoss_def p2)
  have f: "adj ?g' = adj g @ [[\<lparr>layer = ?a, index = num_node g\<rparr>]]"
    "num_node ?g' = Suc (num_node g)" "Sorted ?g' = Sorted g"
    "length (heap ?g') = Suc ?a"
    by (subst g', simp)+
  show ?thesis
    apply (rule exI[of _ ?g'], rule exI[of _ ?nm])
    apply (intro conjI)
    subgoal by (rule res)
    subgoal by (rule f(1))
    subgoal by (rule f(2))
    subgoal by (rule f(3))
    subgoal by (rule f(4))
    subgoal unfolding heap' by (rule a6)
    subgoal unfolding heap' by (rule p6)
    subgoal unfolding heap' by (rule o6)
    subgoal by (rule unused(1))
    done
qed

lemma getLayerNode_loop_mem:
  "getLayerNode_loop ls k u = Inr n \<Longrightarrow> n \<in> set (concat ls)"
  by (induction ls k u rule: getLayerNode_loop.induct) (auto split: if_splits)

lemma getLayerNode_mem: "getLayerNode g u = Inr n \<Longrightarrow> n \<in> set (concat (adj g))"
  unfolding getLayerNode_def by (rule getLayerNode_loop_mem)

lemma util_stack_subset:
  "topologicalSortUtil f g ith st = Some (Inr st')
     \<Longrightarrow> set (snd st') \<subseteq> set (snd st) \<union> set (concat (adj g))"
  "topologicalSortUtil_loop f g ns st = Some (Inr st')
     \<Longrightarrow> set (snd st') \<subseteq> set (snd st) \<union> set (concat (adj g))"
proof (induction f g ith st and f g ns st arbitrary: st' and st'
    rule: topologicalSortUtil_topologicalSortUtil_loop.induct)
  case (1 g ith st)
  then show ?case by simp
next
  case (2 f g ith visited Stack)
  from "2.prems" obtain v' s' n where
    l: "topologicalSortUtil_loop f g (adj g ! ith) (visited[ith := True], Stack) = Some (Inr (v', s'))"
    and n: "getLayerNode g ith = Inr n" and st': "st' = (v', n # s')"
    and rng: "\<not> (length visited \<le> ith \<or> length (adj g) \<le> ith)"
    by (auto split: if_splits option.splits sum.splits prod.splits)
  have "set (snd (v', s')) \<subseteq> set (snd (visited[ith := True], Stack)) \<union> set (concat (adj g))"
    using rng l by (intro "2.IH") auto
  with getLayerNode_mem[OF n] st' show ?case
    by auto
next
  case (3 f g st)
  then show ?case by simp
next
  case (4 f g n ns visited Stack)
  show ?case
  proof (cases "visited ! index n")
    case True
    with "4.prems" have "topologicalSortUtil_loop f g ns (visited, Stack) = Some (Inr st')"
      and "\<not> length visited \<le> index n"
      by (auto split: if_splits)
    then show ?thesis
      using True by (intro "4.IH"(3)) auto
  next
    case False
    with "4.prems" obtain st1 where
      u: "topologicalSortUtil f g (index n) (visited, Stack) = Some (Inr st1)"
      and l: "topologicalSortUtil_loop f g ns st1 = Some (Inr st')"
      and rng: "\<not> length visited \<le> index n"
      by (auto split: if_splits option.splits sum.splits)
    have "set (snd st1) \<subseteq> set (snd (visited, Stack)) \<union> set (concat (adj g))"
      using rng False u by (intro "4.IH"(1)) auto
    moreover have "set (snd st') \<subseteq> set (snd st1) \<union> set (concat (adj g))"
      using rng False u l by (intro "4.IH"(2)) auto
    ultimately show ?thesis
      by auto
  qed
qed

lemma topologicalSort_loop_subset:
  "topologicalSort_loop f g i k st = Some (Inr st')
     \<Longrightarrow> set (snd st') \<subseteq> set (snd st) \<union> set (concat (adj g))"
proof (induction f g i k st arbitrary: st' rule: topologicalSort_loop.induct)
  case (1 f g i st)
  then show ?case by simp
next
  case (2 f g i k visited Stack)
  show ?case
  proof (cases "visited ! i")
    case True
    with "2.prems" have "topologicalSort_loop f g (Suc i) k (visited, Stack) = Some (Inr st')"
      and "\<not> length visited \<le> i"
      by (auto split: if_splits)
    then show ?thesis
      using True by (intro "2.IH"(2)) auto
  next
    case False
    with "2.prems" obtain st1 where
      u: "topologicalSortUtil f g i (visited, Stack) = Some (Inr st1)"
      and l: "topologicalSort_loop f g (Suc i) k st1 = Some (Inr st')"
      and rng: "\<not> length visited \<le> i"
      by (auto split: if_splits option.splits sum.splits)
    have "set (snd st') \<subseteq> set (snd st1) \<union> set (concat (adj g))"
      using rng False u l by (intro "2.IH"(1)) auto
    with util_stack_subset(1)[OF u] show ?thesis
      by auto
  qed
qed

lemma topologicalSort_subset:
  assumes "topologicalSort fuel g = Some (Inr g')"
  shows "set (Sorted g') \<subseteq> set (Sorted g) \<union> set (concat (adj g))" "heap g' = heap g"
proof -
  from assms obtain v s where
    l: "topologicalSort_loop fuel g 0 (num_node g) (replicate (num_node g) False, []) = Some (Inr (v, s))"
    and g': "g' = countNonTrainableLayersAtBegin (g\<lparr>Sorted := Sorted g @ s\<rparr>)"
    by (auto simp: topologicalSort_def split: option.splits sum.splits prod.splits)
  from topologicalSort_loop_subset[OF l] g'
  show "set (Sorted g') \<subseteq> set (Sorted g) \<union> set (concat (adj g))" "heap g' = heap g"
    by auto
qed

lemma set_concat_update:
  "i < length xs \<Longrightarrow> set (concat (xs[i := xs ! i @ [n]])) = insert n (set (concat xs))"
  by (induction xs arbitrary: i) (auto split: nat.splits)

lemma addEdge_nodes:
  "addEdge ith n g = Inr g' \<Longrightarrow>
     set (concat (adj g')) = insert n (set (concat (adj g)))
     \<and> heap g' = heap g \<and> Sorted g' = Sorted g \<and> num_node g' = num_node g
     \<and> length (adj g') = length (adj g)"
proof -
  assume a: "addEdge ith n g = Inr g'"
  then have i: "ith < length (adj g)" and g': "g' = g\<lparr>adj := (adj g)[ith := adj g ! ith @ [n]]\<rparr>"
    by (auto simp: addEdge_def split: if_splits)
  have "set (concat (adj g')) = insert n (set (concat (adj g)))"
    unfolding g' using set_concat_update[OF i, of n] by simp
  then show ?thesis
    unfolding g' by simp
qed

lemma setEdge_inputs_nodes:
  "setEdge_inputs n xs g = Inr g' \<Longrightarrow>
     set (concat (adj g')) \<subseteq> insert n (set (concat (adj g)))
     \<and> heap g' = heap g \<and> Sorted g' = Sorted g \<and> num_node g' = num_node g
     \<and> length (adj g') = length (adj g)"
proof (induction xs arbitrary: g)
  case Nil
  then show ?case by auto
next
  case (Cons x xs)
  show ?case
  proof (cases "istrequal x ''__data__''")
    case True
    with Cons show ?thesis by simp
  next
    case False
    with Cons.prems obtain p g1 where p: "getLayerNode_name g x = Inr p"
      and e: "addEdge (index p) n g = Inr g1" and r: "setEdge_inputs n xs g1 = Inr g'"
      by (auto split: sum.splits)
    from addEdge_nodes[OF e] Cons.IH[OF r] show ?thesis
      by (intro conjI; elim conjE) (blast, simp_all)
  qed
qed

lemma setEdge_loop_nodes:
  "setEdge_loop i k g = Inr g' \<Longrightarrow>
     set (concat (adj g')) \<subseteq> set (concat (adj g))
     \<and> heap g' = heap g \<and> Sorted g' = Sorted g \<and> num_node g' = num_node g"
proof (induction k arbitrary: i g)
  case 0
  then show ?case by simp
next
  case (Suc k)
  from Suc.prems obtain n ns d ds where i: "i < length (adj g)" and an: "adj g ! i = n # ns"
    and d: "input_dim (heap g ! layer n) = d # ds"
    by (auto split: if_splits list.splits)
  have nmem: "n \<in> set (concat (adj g))"
    using i an by (metis list.set_intros(1) nth_mem set_concat UN_I)
  show ?case
  proof (cases "d \<noteq> 0")
    case True
    with Suc.prems i an d have "setEdge_loop (Suc i) k g = Inr g'"
      by simp
    from Suc.IH[OF this] show ?thesis .
  next
    case False
    with Suc.prems i an d obtain g1 where
      e: "setEdge_inputs n (input_layers (heap g ! layer n)) g = Inr g1"
      and r: "setEdge_loop (Suc i) k g1 = Inr g'"
      by (auto split: sum.splits)
    from setEdge_inputs_nodes[OF e] nmem Suc.IH[OF r] show ?thesis
      by (intro conjI; elim conjE) (blast, simp_all)
  qed
qed

lemma setEdge_nodes:
  "setEdge g = Inr g' \<Longrightarrow>
     set (concat (adj g')) \<subseteq> set (concat (adj g))
     \<and> heap g' = heap g \<and> Sorted g' = Sorted g \<and> num_node g' = num_node g"
  unfolding setEdge_def by (rule setEdge_loop_nodes)

text \<open>
  Claim C5. Cross entropy is requested, the last node is an activation node with softmax
  (or sigmoid) activation, and another node remains below it. Then \<open>addLossLayer\<close>
  succeeds: the adjacency list of the activation node is removed and a node for a new loss
  layer takes its place; the loss layer records the fused softmax (or sigmoid) cross
  entropy kind and has the name of the remaining last layer as its only input, and that
  layer has the name of the loss layer as its only output. No node of the resulting
  graph wraps the activation layer, and neither does any node of the sorted order that
  edge resolution and the topological sort produce from it.
\<close>

theorem addLossLayer_entropy_fuses:
  "2 \<le> num_node g
   \<and> getLayerNode g (num_node g - 1) = Inr an
   \<and> ltype (heap g ! layer an) = ''activation''
   \<and> (activation_type (heap g ! layer an) = ACT_SOFTMAX
        \<or> activation_type (heap g ! layer an) = ACT_SIGMOID)
   \<and> getLayerNode (g\<lparr>adj := butlast (adj g), num_node := num_node g - 1\<rparr>) (num_node g - 2)
        = Inr pn
   \<and> layer pn < length (heap g) \<and> layer an < length (heap g)
   \<and> layer an \<notin> layer ` set (concat (butlast (adj g)))
   \<and> layer an \<notin> layer ` set (Sorted g)
   \<longrightarrow>
   (\<exists>g' nm. addLossLayer LOSS_ENTROPY g = Inr (ML_ERROR_NONE, g')
      \<and> adj g' = butlast (adj g) @ [[\<lparr>layer = length (heap g), index = num_node g - 1\<rparr>]]
      \<and> num_node g' = num_node g
      \<and> ltype (heap g' ! length (heap g)) = LossLayer_type
      \<and> loss_type (heap g' ! length (heap g)) =
           (if activation_type (heap g ! layer an) = ACT_SOFTMAX
            then LOSS_ENTROPY_SOFTMAX else LOSS_ENTROPY_SIGMOID)
      \<and> name (heap g' ! length (heap g)) = nm \<and> nm \<noteq> []
      \<and> input_layers (heap g' ! length (heap g)) = [name (heap g ! layer pn)]
      \<and> output_layers (heap g' ! layer pn) = [nm]
      \<and> layer an \<notin> layer ` set (concat (adj g'))
      \<and> (\<forall>fuel g2 g3. setEdge g' = Inr g2 \<and> topologicalSort fuel g2 = Some (Inr g3)
            \<longrightarrow> layer an \<notin> layer ` set (Sorted g3)))"
proof (intro impI, elim conjE)
  assume n2: "2 \<le> num_node g"
    and an: "getLayerNode g (num_node g - 1) = Inr an"
    and ty: "ltype (heap g ! layer an) = ''activation''"
    and act: "activation_type (heap g ! layer an) = ACT_SOFTMAX
        \<or> activation_type (heap g ! layer an) = ACT_SIGMOID"
    and pn: "getLayerNode (g\<lparr>adj := butlast (adj g), num_node := num_node g - 1\<rparr>)
               (num_node g - 2) = Inr pn"
    and pv: "layer pn < length (heap g)" and av: "layer an < length (heap g)"
    and fresh: "layer an \<notin> layer ` set (concat (butlast (adj g)))"
    and freshS: "layer an \<notin> layer ` set (Sorted g)"
  let ?g1 = "g\<lparr>adj := butlast (adj g), num_node := num_node g - 1\<rparr>"
  let ?lt = "if activation_type (heap g ! layer an) = ACT_SOFTMAX
            then LOSS_ENTROPY_SOFTMAX else LOSS_ENTROPY_SIGMOID"
  let ?a = "length (heap g)"
  have u1: "uint_sub (num_node g) 1 = num_node g - 1"
    using n2 by (simp add: uint_sub_def)
  have u2: "uint_sub (num_node ?g1) 1 = num_node g - 2"
    using n2 by (simp add: uint_sub_def) arith
  have pn1: "getLayerNode ?g1 (uint_sub (num_node ?g1) 1) = Inr pn"
    unfolding u2 by (rule pn)
  have lt: "?lt \<noteq> LOSS_UNKNOWN"
    by simp
  have pv1: "layer pn < length (heap ?g1)"
    using pv by simp
  obtain g' nm where g': "addLossLayer_attach ?lt ?g1 = Inr (ML_ERROR_NONE, g')"
      "adj g' = adj ?g1 @ [[\<lparr>layer = length (heap ?g1), index = num_node ?g1\<rparr>]]"
      "num_node g' = Suc (num_node ?g1)" "Sorted g' = Sorted ?g1"
      "heap g' ! length (heap ?g1) =
           (createLayer LossLayer_type)
             \<lparr>name := nm, input_layers := [name (heap ?g1 ! layer pn)],
              output_layers := [''__exit__''], loss_type := ?lt\<rparr>"
      "heap g' ! layer pn = (heap ?g1 ! layer pn)\<lparr>output_layers := [nm], num_outputs := 1\<rparr>"
      "nm \<noteq> []"
    using addLossLayer_attach_ok[OF pn1 pv1 lt] by blast
  have u1': "uint_sub (num_node g) (Suc 0) = num_node g - Suc 0"
    using u1 by simp
  have an': "getLayerNode g (num_node g - Suc 0) = Inr an"
    using an by simp
  have res: "addLossLayer LOSS_ENTROPY g = Inr (ML_ERROR_NONE, g')"
    using n2 an' ty act g'(1) by (auto simp: addLossLayer_def u1' Let_def)
  have adj': "adj g' = butlast (adj g) @ [[\<lparr>layer = ?a, index = num_node g - 1\<rparr>]]"
    using g'(2) by simp
  have nn: "num_node g' = num_node g"
    using g'(3) n2 by simp
  have notin: "layer an \<notin> layer ` set (concat (adj g'))"
    unfolding adj' using fresh av by auto
  have sorted: "\<forall>fuel g2 g3. setEdge g' = Inr g2 \<and> topologicalSort fuel g2 = Some (Inr g3)
            \<longrightarrow> layer an \<notin> layer ` set (Sorted g3)"
  proof (intro allI impI, elim conjE)
    fix fuel g2 g3
    assume e: "setEdge g' = Inr g2" and t: "topologicalSort fuel g2 = Some (Inr g3)"
    have "set (Sorted g3) \<subseteq> set (Sorted g2) \<union> set (concat (adj g2))"
      using topologicalSort_subset(1)[OF t] .
    moreover have "set (concat (adj g2)) \<subseteq> set (concat (adj g'))" "Sorted g2 = Sorted g'"
      using setEdge_nodes[OF e] by simp_all
    ultimately have "set (Sorted g3) \<subseteq> set (Sorted g) \<union> set (concat (adj g'))"
      using g'(4) by auto
    with notin freshS show "layer an \<notin> layer ` set (Sorted g3)"
      by blast
  qed
  have l1: "ltype (heap g' ! ?a) = LossLayer_type" "loss_type (heap g' ! ?a) = ?lt"
    "name (heap g' ! ?a) = nm" "input_layers (heap g' ! ?a) = [name (heap g ! layer pn)]"
    using g'(5) by (simp_all add: createLayer_def)
  have l2: "output_layers (heap g' ! layer pn) = [nm]"
    using g'(6) by simp
  show "\<exists>g' nm. addLossLayer LOSS_ENTROPY g = Inr (ML_ERROR_NONE, g')
      \<and> adj g' = butlast (adj g) @ [[\<lparr>layer = length (heap g), index = num_node g - 1\<rparr>]]
      \<and> num_node g' = num_node g
      \<and> ltype (heap g' ! length (heap g)) = LossLayer_type
      \<and> loss_type (heap g' ! length (heap g)) = ?lt
      \<and> name (heap g' ! length (heap g)) = nm \<and> nm \<noteq> []
      \<and> input_layers (heap g' ! length (heap g)) = [name (heap g ! layer pn)]
      \<and> output_layers (heap g' ! layer pn) = [nm]
      \<and> layer an \<notin> layer ` set (concat (adj g'))
      \<and> (\<forall>fuel g2 g3. setEdge g' = Inr g2 \<and> topologicalSort fuel g2 = Some (Inr g3)
            \<longrightarrow> layer an \<notin> layer ` set (Sorted g3))"
    by (intro exI[of _ g'] exI[of _ nm] conjI res adj' nn l1 g'(7) l2 notin sorted)
qed

lemma getLayerNode_dense_act_popped:
  "getLayerNode ((dense_act_graph act)\<lparr>adj := [[node 0]], num_node := Suc 0\<rparr>) 0 = Inr (node 0)"
  by (simp add: getLayerNode_def node_def)

theorem addLossLayer_entropy_fuses_witness:
  "map_sum id (\<lambda>(st, g'). (st, adj g', loss_type (heap g' ! 2), name (heap g' ! 2),
        input_layers (heap g' ! 2), output_layers (heap g' ! 0)))
     (addLossLayer LOSS_ENTROPY (dense_act_graph ACT_SOFTMAX))
     = Inr (ML_ERROR_NONE, [[node 0], [\<lparr>layer = 2, index = 1\<rparr>]], LOSS_ENTROPY_SOFTMAX,
            ''loss0'', [''fc''], [''loss0''])
   \<and> (\<exists>g' nm. addLossLayer LOSS_ENTROPY (dense_act_graph ACT_SOFTMAX) = Inr (ML_ERROR_NONE, g')
        \<and> loss_type (heap g' ! 2) = LOSS_ENTROPY_SOFTMAX
        \<and> layer (node 1) \<notin> layer ` set (concat (adj g')))
   \<and> map_option (map_sum id (\<lambda>(st, g). (st, sorted_names g, map layer (Sorted g))))
        (build 3 [0, 1] LOSS_ENTROPY (flat_dense_act ACT_SOFTMAX))
      = Some (Inr (ML_ERROR_NONE, [''fc'', ''loss0''], [0, 2]))
   \<and> map_option (map_sum id (\<lambda>(st, g). (st, sorted_names g, map layer (Sorted g))))
        (build 3 [0, 1] LOSS_ENTROPY (flat_dense_act ACT_SIGMOID))
      = Some (Inr (ML_ERROR_NONE, [''fc'', ''loss0''], [0, 2]))"
proof -
  let ?g = "dense_act_graph ACT_SOFTMAX"
  have h: "2 \<le> num_node ?g
   \<and> getLayerNode ?g (num_node ?g - 1) = Inr (node 1)
   \<and> ltype (heap ?g ! layer (node 1)) = ''activation''
   \<and> (activation_type (heap ?g ! layer (node 1)) = ACT_SOFTMAX
        \<or> activation_type (heap ?g ! layer (node 1)) = ACT_SIGMOID)
   \<and> getLayerNode (?g\<lparr>adj := butlast (adj ?g), num_node := num_node ?g - 1\<rparr>) (num_node ?g - 2)
        = Inr (node 0)
   \<and> layer (node 0) < length (heap ?g) \<and> layer (node 1) < length (heap ?g)
   \<and> layer (node 1) \<notin> layer ` set (concat (butlast (adj ?g)))
   \<and> layer (node 1) \<notin> layer ` set (Sorted ?g)"
    by (simp add: dense_act_graph_simps getLayerNode_dense_act getLayerNode_dense_act_popped)
       (simp add: node_def dense_act_graph_def empty_graph_def act_layer_def createLayer_def)
  have len: "length (heap ?g) = 2"
    and act1: "activation_type (heap ?g ! layer (node 1)) = ACT_SOFTMAX"
    by (simp_all add: dense_act_graph_simps node_def)
  from addLossLayer_entropy_fuses [of ?g "node 1" "node 0"] h
  have "\<exists>g' nm. addLossLayer LOSS_ENTROPY ?g = Inr (ML_ERROR_NONE, g')
        \<and> loss_type (heap g' ! length (heap ?g)) =
           (if activation_type (heap ?g ! layer (node 1)) = ACT_SOFTMAX
            then LOSS_ENTROPY_SOFTMAX else LOSS_ENTROPY_SIGMOID)
        \<and> layer (node 1) \<notin> layer ` set (concat (adj g'))"
    by blast
  then have a: "\<exists>g' nm. addLossLayer LOSS_ENTROPY ?g = Inr (ML_ERROR_NONE, g')
        \<and> loss_type (heap g' ! 2) = LOSS_ENTROPY_SOFTMAX
        \<and> layer (node 1) \<notin> layer ` set (concat (adj g'))"
    unfolding len act1 by simp
  have b: "map_sum id (\<lambda>(st, g'). (st, adj g', loss_type (heap g' ! 2), name (heap g' ! 2),
        input_layers (heap g' ! 2), output_layers (heap g' ! 0)))
     (addLossLayer LOSS_ENTROPY ?g)
     = Inr (ML_ERROR_NONE, [[node 0], [\<lparr>layer = 2, index = 1\<rparr>]], LOSS_ENTROPY_SOFTMAX,
            ''loss0'', [''fc''], [''loss0''])"
    by code_simp
  have c: "map_option (map_sum id (\<lambda>(st, g). (st, sorted_names g, map layer (Sorted g))))
        (build 3 [0, 1] LOSS_ENTROPY (flat_dense_act ACT_SOFTMAX))
      = Some (Inr (ML_ERROR_NONE, [''fc'', ''loss0''], [0, 2]))"
    by code_simp
  have d: "map_option (map_sum id (\<lambda>(st, g). (st, sorted_names g, map layer (Sorted g))))
        (build 3 [0, 1] LOSS_ENTROPY (flat_dense_act ACT_SIGMOID))
      = Some (Inr (ML_ERROR_NONE, [''fc'', ''loss0''], [0, 2]))"
    by code_simp
  from a b c d show ?thesis
    by blast
qed

section \<open>Properties of the in-place pass\<close>

lemma inPlaceOptimize_node_cong:
  assumes "heap g' = heap g" "adj g' = adj g"
  shows "inPlaceOptimize_node t g' n = inPlaceOptimize_node t g n"
proof -
  have eq: "getLayerNode_name g' = getLayerNode_name g"
    using assms by (simp add: fun_eq_iff getLayerNode_name_def)
  show ?thesis
    unfolding inPlaceOptimize_node_def assms(1) eq by (rule refl)
qed

lemma alias_of_cong:
  assumes "heap g' = heap g" "adj g' = adj g"
  shows "alias_of t g' n = alias_of t g n"
  unfolding alias_of_def inPlaceOptimize_node_cong[OF assms] by (rule refl)

lemma inPlaceOptimize_loop_aliased:
  "inPlaceOptimize_loop t ns g = Inr g' \<Longrightarrow>
     heap g' = heap g \<and> adj g' = adj g \<and> Sorted g' = Sorted g
     \<and> aliased g' = aliased g @ concat (map (alias_of t g) ns)"
proof (induction ns arbitrary: g)
  case Nil
  then show ?case by simp
next
  case (Cons n ns)
  show ?case
  proof (cases "inPlaceOptimize_node t g n")
    case (Inl e)
    with Cons.prems show ?thesis by simp
  next
    case (Inr o1)
    show ?thesis
    proof (cases o1)
      case None
      with Inr Cons.prems have "inPlaceOptimize_loop t ns g = Inr g'"
        by simp
      from Cons.IH[OF this] Inr None show ?thesis
        by (simp add: alias_of_def)
    next
      case (Some r)
      let ?g1 = "g\<lparr>aliased := aliased g @ [r],
                    untracked := untracked g @ [name (heap g ! layer (a_prev r))]\<rparr>"
      from Some Inr Cons.prems have "inPlaceOptimize_loop t ns ?g1 = Inr g'"
        by simp
      from Cons.IH[OF this]
      have "heap g' = heap g" "adj g' = adj g" "Sorted g' = Sorted g"
        "aliased g' = (aliased g @ [r]) @ concat (map (alias_of t ?g1) ns)"
        by simp_all
      moreover have "map (alias_of t ?g1) ns = map (alias_of t g) ns"
        by (intro map_cong refl alias_of_cong) simp_all
      moreover have "alias_of t g n = [r]"
        using Inr Some by (simp add: alias_of_def)
      ultimately show ?thesis
        by simp
    qed
  qed
qed

lemma inPlaceOptimize_aliased:
  assumes "inPlaceOptimize g = Inr g'"
  shows "heap g' = heap g" "adj g' = adj g" "Sorted g' = Sorted g"
    "aliased g' = aliased g @ concat (map (alias_of ActivationLayer_type g) (Sorted g))
                   @ concat (map (alias_of BatchNormalizationLayer_type g) (Sorted g))"
proof -
  from assms obtain g1 where
    p1: "inPlaceOptimize_loop ActivationLayer_type (Sorted g) g = Inr g1"
    and p2: "inPlaceOptimize_loop BatchNormalizationLayer_type (Sorted g1) g1 = Inr g'"
    by (auto simp: inPlaceOptimize_def in_place_layers_def inPlaceOptimize_type_def
        split: sum.splits)
  note a1 = inPlaceOptimize_loop_aliased[OF p1]
  note a2 = inPlaceOptimize_loop_aliased[OF p2]
  have s1: "Sorted g1 = Sorted g"
    using a1 by simp
  have m: "map (alias_of BatchNormalizationLayer_type g1) (Sorted g)
      = map (alias_of BatchNormalizationLayer_type g) (Sorted g)"
    using a1 by (intro map_cong alias_of_cong) simp_all
  show "heap g' = heap g" "adj g' = adj g" "Sorted g' = Sorted g"
    using a1 a2 by simp_all
  have "aliased g' = aliased g1 @ concat (map (alias_of BatchNormalizationLayer_type g1) (Sorted g1))"
    using a2 by simp
  also have "\<dots> = (aliased g @ concat (map (alias_of ActivationLayer_type g) (Sorted g)))
       @ concat (map (alias_of BatchNormalizationLayer_type g) (Sorted g))"
    unfolding s1 m using a1 by simp
  finally show "aliased g' = aliased g @ concat (map (alias_of ActivationLayer_type g) (Sorted g))
                   @ concat (map (alias_of BatchNormalizationLayer_type g) (Sorted g))"
    by simp
qed

lemma inPlaceOptimize_loop_no_error:
  "inPlaceOptimize_loop t ns g = Inr g' \<Longrightarrow> n \<in> set ns
     \<Longrightarrow> \<exists>r. inPlaceOptimize_node t g n = Inr r"
proof (induction ns arbitrary: g)
  case Nil
  then show ?case by simp
next
  case (Cons m ns)
  show ?case
  proof (cases "inPlaceOptimize_node t g m")
    case (Inl e)
    with Cons.prems show ?thesis by simp
  next
    case (Inr o1)
    show ?thesis
    proof (cases "n = m")
      case True
      with Inr show ?thesis by simp
    next
      case False
      with Cons.prems have n: "n \<in> set ns" by simp
      show ?thesis
      proof (cases o1)
        case None
        with Inr Cons.prems have "inPlaceOptimize_loop t ns g = Inr g'" by simp
        from Cons.IH[OF this n] show ?thesis .
      next
        case (Some r)
        let ?g1 = "g\<lparr>aliased := aliased g @ [r],
                    untracked := untracked g @ [name (heap g ! layer (a_prev r))]\<rparr>"
        from Some Inr Cons.prems have "inPlaceOptimize_loop t ns ?g1 = Inr g'" by simp
        from Cons.IH[OF this n] show ?thesis
          by (simp add: inPlaceOptimize_node_cong[of ?g1 g])
      qed
    qed
  qed
qed

lemma inPlaceOptimize_node_Some:
  assumes "inPlaceOptimize_node t g n = Inr (Some r)"
  shows "a_node r = n" "ltype (heap g ! layer n) = t"
    "activation_type (heap g ! layer n) \<noteq> ACT_SOFTMAX"
    "length (input_layers (heap g ! layer n)) = 1"
    "getLayerNode_name g (input_layers (heap g ! layer n) ! 0) = Inr (a_prev r)"
    "ltype (heap g ! layer (a_prev r)) \<noteq> InputLayer_type"
    "ltype (heap g ! layer (a_prev r)) \<notin> set in_place_layers"
    "a_loc r < length (output_layers (heap g ! layer (a_prev r)))"
    "output_layers (heap g ! layer (a_prev r)) ! a_loc r = name (heap g ! layer n)"
    "t = BatchNormalizationLayer_type \<or> t = ActivationLayer_type"
    "a_kind r = (if t = BatchNormalizationLayer_type
                 then Alias_BatchNormalization else Alias_Activation)"
proof -
  let ?l = "heap g ! layer n"
  have c0: "ltype ?l = t \<and> activation_type ?l \<noteq> ACT_SOFTMAX"
  proof (rule ccontr)
    assume "\<not> (ltype ?l = t \<and> activation_type ?l \<noteq> ACT_SOFTMAX)"
    then have "inPlaceOptimize_node t g n = Inr None"
      unfolding inPlaceOptimize_node_def Let_def by (rule if_not_P)
    with assms show False by simp
  qed
  have c1: "length (input_layers ?l) = 1"
  proof (rule ccontr)
    assume "length (input_layers ?l) \<noteq> 1"
    then have "inPlaceOptimize_node t g n = Inl runtime_error"
      unfolding inPlaceOptimize_node_def Let_def using c0 by simp
    with assms show False by simp
  qed
  note c = conjunct1[OF c0] conjunct2[OF c0] c1
  obtain pn where pn: "getLayerNode_name g (input_layers ?l ! 0) = Inr pn"
  proof (cases "getLayerNode_name g (input_layers ?l ! 0)")
    case (Inl e)
    then have "inPlaceOptimize_node t g n = Inl e"
      unfolding inPlaceOptimize_node_def Let_def using c0 c1 by simp
    with assms show ?thesis by simp
  next
    case (Inr pn)
    then show ?thesis by (rule that)
  qed
  let ?p = "heap g ! layer pn"
  let ?loc = "length (takeWhile (\<lambda>x. x \<noteq> name ?l) (output_layers ?p))"
  have eq: "inPlaceOptimize_node t g n =
     (if ?loc = length (output_layers ?p) then Inl runtime_error
      else if ltype ?p = InputLayer_type then Inr None
      else if ltype ?p \<in> set in_place_layers then Inr None
      else if t = BatchNormalizationLayer_type
        then Inr (Some \<lparr>a_node = n, a_prev = pn, a_loc = ?loc,
                         a_kind = Alias_BatchNormalization\<rparr>)
      else if t = ActivationLayer_type
        then Inr (Some \<lparr>a_node = n, a_prev = pn, a_loc = ?loc, a_kind = Alias_Activation\<rparr>)
      else Inl runtime_error)"
    unfolding inPlaceOptimize_node_def Let_def using c0 c1 pn by simp
  from assms have d: "?loc \<noteq> length (output_layers ?p)"
    "ltype ?p \<noteq> InputLayer_type" "ltype ?p \<notin> set in_place_layers"
    "t = BatchNormalizationLayer_type \<or> t = ActivationLayer_type"
    and r: "r = \<lparr>a_node = n, a_prev = pn, a_loc = ?loc,
               a_kind = (if t = BatchNormalizationLayer_type
                 then Alias_BatchNormalization else Alias_Activation)\<rparr>"
    unfolding eq by (auto split: if_splits)
  have lt: "?loc < length (output_layers ?p)"
    using d(1) length_takeWhile_le[of "\<lambda>x. x \<noteq> name ?l" "output_layers ?p"] by simp
  have "\<not> (output_layers ?p ! ?loc \<noteq> name ?l)"
    using lt by (rule nth_length_takeWhile)
  then have at: "output_layers ?p ! ?loc = name ?l" by simp
  show "a_node r = n" "ltype (heap g ! layer n) = t"
    "activation_type (heap g ! layer n) \<noteq> ACT_SOFTMAX"
    "length (input_layers (heap g ! layer n)) = 1"
    "getLayerNode_name g (input_layers (heap g ! layer n) ! 0) = Inr (a_prev r)"
    "ltype (heap g ! layer (a_prev r)) \<noteq> InputLayer_type"
    "ltype (heap g ! layer (a_prev r)) \<notin> set in_place_layers"
    "a_loc r < length (output_layers (heap g ! layer (a_prev r)))"
    "output_layers (heap g ! layer (a_prev r)) ! a_loc r = name (heap g ! layer n)"
    "t = BatchNormalizationLayer_type \<or> t = ActivationLayer_type"
    "a_kind r = (if t = BatchNormalizationLayer_type
                 then Alias_BatchNormalization else Alias_Activation)"
    using c pn d lt at by (simp_all add: r)
qed

lemma in_aliased_iff:
  assumes "inPlaceOptimize g = Inr g'" "aliased g = []"
  shows "r \<in> set (aliased g') \<longleftrightarrow>
     (\<exists>n \<in> set (Sorted g). inPlaceOptimize_node ActivationLayer_type g n = Inr (Some r)
        \<or> inPlaceOptimize_node BatchNormalizationLayer_type g n = Inr (Some r))"
proof -
  have "set (alias_of t g n) = {r. inPlaceOptimize_node t g n = Inr (Some r)}" for t n
    by (auto simp: alias_of_def split: sum.splits option.splits)
  then show ?thesis
    unfolding inPlaceOptimize_aliased(4)[OF assms(1)] assms(2) by auto
qed

lemma inPlaceOptimize_no_error:
  assumes "inPlaceOptimize g = Inr g'" "n \<in> set (Sorted g)"
  shows "\<exists>r. inPlaceOptimize_node ActivationLayer_type g n = Inr r"
    "\<exists>r. inPlaceOptimize_node BatchNormalizationLayer_type g n = Inr r"
proof -
  from assms(1) obtain g1 where
    p1: "inPlaceOptimize_loop ActivationLayer_type (Sorted g) g = Inr g1"
    and p2: "inPlaceOptimize_loop BatchNormalizationLayer_type (Sorted g1) g1 = Inr g'"
    by (auto simp: inPlaceOptimize_def in_place_layers_def inPlaceOptimize_type_def
        split: sum.splits)
  note a1 = inPlaceOptimize_loop_aliased[OF p1]
  show "\<exists>r. inPlaceOptimize_node ActivationLayer_type g n = Inr r"
    using inPlaceOptimize_loop_no_error[OF p1 assms(2)] .
  have "n \<in> set (Sorted g1)"
    using a1 assms(2) by simp
  from inPlaceOptimize_loop_no_error[OF p2 this]
  show "\<exists>r. inPlaceOptimize_node BatchNormalizationLayer_type g n = Inr r"
    using a1 by (simp add: inPlaceOptimize_node_cong[of g1 g])
qed

lemma in_place_types:
  "set in_place_layers = {ActivationLayer_type, BatchNormalizationLayer_type}"
  "ActivationLayer_type \<noteq> BatchNormalizationLayer_type"
  by (simp_all add: in_place_layers_def ActivationLayer_type_def BatchNormalizationLayer_type_def)

lemma aliased_record:
  assumes ok: "inPlaceOptimize g = Inr g'" and e: "aliased g = []"
    and r: "r \<in> set (aliased g')"
  shows "a_node r \<in> set (Sorted g)"
    "ltype (heap g ! layer (a_node r)) \<in> set in_place_layers"
    "activation_type (heap g ! layer (a_node r)) \<noteq> ACT_SOFTMAX"
    "length (input_layers (heap g ! layer (a_node r))) = 1"
    "getLayerNode_name g (input_layers (heap g ! layer (a_node r)) ! 0) = Inr (a_prev r)"
    "ltype (heap g ! layer (a_prev r)) \<noteq> InputLayer_type"
    "ltype (heap g ! layer (a_prev r)) \<notin> set in_place_layers"
proof -
  from r obtain n t where n: "n \<in> set (Sorted g)"
    and t: "inPlaceOptimize_node t g n = Inr (Some r)"
    unfolding in_aliased_iff[OF ok e] by blast
  note s = inPlaceOptimize_node_Some[OF t]
  show "a_node r \<in> set (Sorted g)"
    using n s(1) by simp
  show "ltype (heap g ! layer (a_node r)) \<in> set in_place_layers"
    using s(1,2,10) by (auto simp: in_place_types)
  show "activation_type (heap g ! layer (a_node r)) \<noteq> ACT_SOFTMAX"
    "length (input_layers (heap g ! layer (a_node r))) = 1"
    "getLayerNode_name g (input_layers (heap g ! layer (a_node r)) ! 0) = Inr (a_prev r)"
    "ltype (heap g ! layer (a_prev r)) \<noteq> InputLayer_type"
    "ltype (heap g ! layer (a_prev r)) \<notin> set in_place_layers"
    using s by simp_all
qed

lemma chain_batchnorm_aliased:
  assumes ok: "inPlaceOptimize g = Inr g'" and e: "aliased g = []"
    and b: "b \<in> set (Sorted g)" "ltype (heap g ! layer b) = BatchNormalizationLayer_type"
      "activation_type (heap g ! layer b) \<noteq> ACT_SOFTMAX"
      "input_layers (heap g ! layer b) = [xb]" "getLayerNode_name g xb = Inr c"
    and c: "ltype (heap g ! layer c) \<noteq> InputLayer_type"
      "ltype (heap g ! layer c) \<notin> set in_place_layers"
  shows "\<exists>r \<in> set (aliased g'). a_node r = b \<and> a_prev r = c"
proof -
  let ?l = "heap g ! layer b"
  let ?p = "heap g ! layer c"
  let ?loc = "length (takeWhile (\<lambda>x. x \<noteq> name ?l) (output_layers ?p))"
  let ?r = "\<lparr>a_node = b, a_prev = c, a_loc = ?loc, a_kind = Alias_BatchNormalization\<rparr>"
  obtain res where res: "inPlaceOptimize_node BatchNormalizationLayer_type g b = Inr res"
    using inPlaceOptimize_no_error(2)[OF ok b(1)] by blast
  have eq: "inPlaceOptimize_node BatchNormalizationLayer_type g b =
     (if ?loc = length (output_layers ?p) then Inl runtime_error else Inr (Some ?r))"
    unfolding inPlaceOptimize_node_def Let_def using b(2-5) c by simp
  have "?loc \<noteq> length (output_layers ?p)"
    using res unfolding eq by (auto split: if_splits)
  then have "inPlaceOptimize_node BatchNormalizationLayer_type g b = Inr (Some ?r)"
    unfolding eq by simp
  then have "?r \<in> set (aliased g')"
    unfolding in_aliased_iff[OF ok e] using b(1) by blast
  then show ?thesis
    by (intro bexI[of _ ?r]) simp_all
qed

text \<open>
  Claim C6 (amended). After a successful in-place pass on a graph without earlier
  sharing, every node that shares storage with its predecessor is a sorted node of an
  allow-listed type whose own activation kind is not softmax; its predecessor is not
  an input layer and is not of an allow-listed type (whether or not that predecessor
  was aliased), so the predecessor is not itself a node that shares storage: no two
  consecutive nodes are both aliased. In a chain of a
  layer that is neither an input layer nor allow-listed, a batch normalization and an
  activation, the activation node is never aliased, and the batch normalization node is
  aliased to its predecessor exactly when its own activation kind is not softmax.
\<close>

theorem inPlaceOptimize_exclusion:
  "inPlaceOptimize g = Inr g' \<and> aliased g = [] \<longrightarrow>
     (\<forall>r \<in> set (aliased g').
         a_node r \<in> set (Sorted g)
       \<and> ltype (heap g ! layer (a_node r)) \<in> set in_place_layers
       \<and> activation_type (heap g ! layer (a_node r)) \<noteq> ACT_SOFTMAX
       \<and> getLayerNode_name g (input_layers (heap g ! layer (a_node r)) ! 0) = Inr (a_prev r)
       \<and> ltype (heap g ! layer (a_prev r)) \<noteq> InputLayer_type
       \<and> ltype (heap g ! layer (a_prev r)) \<notin> set in_place_layers
       \<and> (\<forall>r' \<in> set (aliased g'). layer (a_node r') \<noteq> layer (a_prev r)))
   \<and> (\<forall>c b a xb xa.
         b \<in> set (Sorted g)
       \<and> ltype (heap g ! layer b) = BatchNormalizationLayer_type
       \<and> input_layers (heap g ! layer b) = [xb] \<and> getLayerNode_name g xb = Inr c
       \<and> ltype (heap g ! layer c) \<noteq> InputLayer_type
       \<and> ltype (heap g ! layer c) \<notin> set in_place_layers
       \<and> ltype (heap g ! layer a) = ActivationLayer_type
       \<and> input_layers (heap g ! layer a) = [xa] \<and> getLayerNode_name g xa = Inr b
       \<longrightarrow> (\<forall>r \<in> set (aliased g'). a_node r \<noteq> a)
         \<and> ((\<exists>r \<in> set (aliased g'). a_node r = b \<and> a_prev r = c)
              \<longleftrightarrow> activation_type (heap g ! layer b) \<noteq> ACT_SOFTMAX))"
proof (intro impI, elim conjE)
  assume ok: "inPlaceOptimize g = Inr g'" and e: "aliased g = []"
  note rec = aliased_record[OF ok e]
  have part1: "\<forall>r \<in> set (aliased g').
         a_node r \<in> set (Sorted g)
       \<and> ltype (heap g ! layer (a_node r)) \<in> set in_place_layers
       \<and> activation_type (heap g ! layer (a_node r)) \<noteq> ACT_SOFTMAX
       \<and> getLayerNode_name g (input_layers (heap g ! layer (a_node r)) ! 0) = Inr (a_prev r)
       \<and> ltype (heap g ! layer (a_prev r)) \<noteq> InputLayer_type
       \<and> ltype (heap g ! layer (a_prev r)) \<notin> set in_place_layers
       \<and> (\<forall>r' \<in> set (aliased g'). layer (a_node r') \<noteq> layer (a_prev r))"
  proof (intro ballI conjI)
    fix r r' assume r: "r \<in> set (aliased g')" and r': "r' \<in> set (aliased g')"
    show "layer (a_node r') \<noteq> layer (a_prev r)"
      using rec(2)[OF r'] rec(7)[OF r] by auto
  qed (use rec in simp_all)
  have part2: "(\<forall>r \<in> set (aliased g'). a_node r \<noteq> a)
         \<and> ((\<exists>r \<in> set (aliased g'). a_node r = b \<and> a_prev r = c)
              \<longleftrightarrow> activation_type (heap g ! layer b) \<noteq> ACT_SOFTMAX)"
    if h: "b \<in> set (Sorted g)"
       "ltype (heap g ! layer b) = BatchNormalizationLayer_type"
       "input_layers (heap g ! layer b) = [xb]" "getLayerNode_name g xb = Inr c"
       "ltype (heap g ! layer c) \<noteq> InputLayer_type"
       "ltype (heap g ! layer c) \<notin> set in_place_layers"
       "ltype (heap g ! layer a) = ActivationLayer_type"
       "input_layers (heap g ! layer a) = [xa]" "getLayerNode_name g xa = Inr b"
    for c b a :: LayerNode and xb xa
  proof (intro conjI ballI iffI)
    fix r assume r: "r \<in> set (aliased g')"
    show "a_node r \<noteq> a"
    proof
      assume a: "a_node r = a"
      have "a_prev r = b"
        using rec(5)[OF r] h(8,9) unfolding a by simp
      with rec(7)[OF r] h(2) show False
        by (simp add: in_place_types)
    qed
  next
    assume "\<exists>r \<in> set (aliased g'). a_node r = b \<and> a_prev r = c"
    then obtain r where "r \<in> set (aliased g')" "a_node r = b" by blast
    with rec(3)[of r] show "activation_type (heap g ! layer b) \<noteq> ACT_SOFTMAX"
      by simp
  next
    assume "activation_type (heap g ! layer b) \<noteq> ACT_SOFTMAX"
    then show "\<exists>r \<in> set (aliased g'). a_node r = b \<and> a_prev r = c"
      using chain_batchnorm_aliased[OF ok e h(1,2) _ h(3,4,5,6)] by blast
  qed
  show "(\<forall>r \<in> set (aliased g').
         a_node r \<in> set (Sorted g)
       \<and> ltype (heap g ! layer (a_node r)) \<in> set in_place_layers
       \<and> activation_type (heap g ! layer (a_node r)) \<noteq> ACT_SOFTMAX
       \<and> getLayerNode_name g (input_layers (heap g ! layer (a_node r)) ! 0) = Inr (a_prev r)
       \<and> ltype (heap g ! layer (a_prev r)) \<noteq> InputLayer_type
       \<and> ltype (heap g ! layer (a_prev r)) \<notin> set in_place_layers
       \<and> (\<forall>r' \<in> set (aliased g'). layer (a_node r') \<noteq> layer (a_prev r)))
   \<and> (\<forall>c b a xb xa.
         b \<in> set (Sorted g)
       \<and> ltype (heap g ! layer b) = BatchNormalizationLayer_type
       \<and> input_layers (heap g ! layer b) = [xb] \<and> getLayerNode_name g xb = Inr c
       \<and> ltype (heap g ! layer c) \<noteq> InputLayer_type
       \<and> ltype (heap g ! layer c) \<notin> set in_place_layers
       \<and> ltype (heap g ! layer a) = ActivationLayer_type
       \<and> input_layers (heap g ! layer a) = [xa] \<and> getLayerNode_name g xa = Inr b
       \<longrightarrow> (\<forall>r \<in> set (aliased g'). a_node r \<noteq> a)
         \<and> ((\<exists>r \<in> set (aliased g'). a_node r = b \<and> a_prev r = c)
              \<longleftrightarrow> activation_type (heap g ! layer b) \<noteq> ACT_SOFTMAX))"
  proof (intro conjI allI impI)
    show "\<forall>r \<in> set (aliased g').
         a_node r \<in> set (Sorted g)
       \<and> ltype (heap g ! layer (a_node r)) \<in> set in_place_layers
       \<and> activation_type (heap g ! layer (a_node r)) \<noteq> ACT_SOFTMAX
       \<and> getLayerNode_name g (input_layers (heap g ! layer (a_node r)) ! 0) = Inr (a_prev r)
       \<and> ltype (heap g ! layer (a_prev r)) \<noteq> InputLayer_type
       \<and> ltype (heap g ! layer (a_prev r)) \<notin> set in_place_layers
       \<and> (\<forall>r' \<in> set (aliased g'). layer (a_node r') \<noteq> layer (a_prev r))"
      by (rule part1)
  next
    fix c b a :: LayerNode and xb xa :: string
    assume "b \<in> set (Sorted g)
       \<and> ltype (heap g ! layer b) = BatchNormalizationLayer_type
       \<and> input_layers (heap g ! layer b) = [xb] \<and> getLayerNode_name g xb = Inr c
       \<and> ltype (heap g ! layer c) \<noteq> InputLayer_type
       \<and> ltype (heap g ! layer c) \<notin> set in_place_layers
       \<and> ltype (heap g ! layer a) = ActivationLayer_type
       \<and> input_layers (heap g ! layer a) = [xa] \<and> getLayerNode_name g xa = Inr b"
    then have "(\<forall>r \<in> set (aliased g'). a_node r \<noteq> a)
         \<and> ((\<exists>r \<in> set (aliased g'). a_node r = b \<and> a_prev r = c)
              \<longleftrightarrow> activation_type (heap g ! layer b) \<noteq> ACT_SOFTMAX)"
      by (elim conjE) (rule part2)
    then show "\<forall>r \<in> set (aliased g'). a_node r \<noteq> a"
      and "(\<exists>r \<in> set (aliased g'). a_node r = b \<and> a_prev r = c)
              \<longleftrightarrow> activation_type (heap g ! layer b) \<noteq> ACT_SOFTMAX"
      by blast+
  qed
qed

theorem inPlaceOptimize_exclusion_witness:
  "aliased sorted_chain_graph = []
   \<and> (\<exists>g'. inPlaceOptimize sorted_chain_graph = Inr g'
        \<and> (\<forall>r \<in> set (aliased g'). a_node r \<noteq> node 2)
        \<and> (\<exists>r \<in> set (aliased g'). a_node r = node 1 \<and> a_prev r = node 0))
   \<and> map_sum id (\<lambda>g'. (aliased g', untracked g')) (inPlaceOptimize sorted_chain_graph)
       = Inr ([\<lparr>a_node = node 1, a_prev = node 0, a_loc = 0,
                 a_kind = Alias_BatchNormalization\<rparr>], [''conv''])
   \<and> aliased softmax_bn_graph = []
   \<and> (\<exists>g'. inPlaceOptimize softmax_bn_graph = Inr g'
        \<and> (\<forall>r \<in> set (aliased g'). a_node r \<noteq> node 2))
   \<and> map_sum id (\<lambda>g'. (aliased g', untracked g')) (inPlaceOptimize softmax_bn_graph)
       = Inr ([], [])"
proof -
  let ?g = "sorted_chain_graph"
  have e: "aliased ?g = []"
    by (simp add: sorted_chain_graph_def chain_graph_def empty_graph_def)
  have ev: "map_sum id (\<lambda>g'. (aliased g', untracked g')) (inPlaceOptimize ?g)
       = Inr ([\<lparr>a_node = node 1, a_prev = node 0, a_loc = 0,
                 a_kind = Alias_BatchNormalization\<rparr>], [''conv''])"
    by code_simp
  then obtain g' where ok: "inPlaceOptimize ?g = Inr g'"
    by (cases "inPlaceOptimize ?g") auto
  have h: "node 1 \<in> set (Sorted ?g)
       \<and> ltype (heap ?g ! layer (node 1)) = BatchNormalizationLayer_type
       \<and> input_layers (heap ?g ! layer (node 1)) = [''conv'']
       \<and> getLayerNode_name ?g ''conv'' = Inr (node 0)
       \<and> ltype (heap ?g ! layer (node 0)) \<noteq> InputLayer_type
       \<and> ltype (heap ?g ! layer (node 0)) \<notin> set in_place_layers
       \<and> ltype (heap ?g ! layer (node 2)) = ActivationLayer_type
       \<and> input_layers (heap ?g ! layer (node 2)) = [''bn'']
       \<and> getLayerNode_name ?g ''bn'' = Inr (node 1)"
    by code_simp
  have s: "activation_type (heap ?g ! layer (node 1)) \<noteq> ACT_SOFTMAX"
    by code_simp
  from inPlaceOptimize_exclusion [of ?g g'] ok e h s
  have a: "(\<forall>r \<in> set (aliased g'). a_node r \<noteq> node 2)
        \<and> (\<exists>r \<in> set (aliased g'). a_node r = node 1 \<and> a_prev r = node 0)"
    by blast
  let ?k = "softmax_bn_graph"
  have e2: "aliased ?k = []"
    by (simp add: softmax_bn_graph_def empty_graph_def)
  have ev2: "map_sum id (\<lambda>g'. (aliased g', untracked g')) (inPlaceOptimize ?k) = Inr ([], [])"
    by code_simp
  then obtain k' where ok2: "inPlaceOptimize ?k = Inr k'"
    by (cases "inPlaceOptimize ?k") auto
  have h2: "getLayerNode_name ?k (input_layers (heap ?k ! layer (node 2)) ! 0) = Inr (node 1)
       \<and> ltype (heap ?k ! layer (node 1)) \<in> set in_place_layers"
    by code_simp
  have b: "\<forall>r \<in> set (aliased k'). a_node r \<noteq> node 2"
  proof (intro ballI notI)
    fix r assume r: "r \<in> set (aliased k')" and n: "a_node r = node 2"
    from inPlaceOptimize_exclusion [of ?k k'] ok2 e2 r
    have "getLayerNode_name ?k (input_layers (heap ?k ! layer (a_node r)) ! 0) = Inr (a_prev r)"
      and "ltype (heap ?k ! layer (a_prev r)) \<notin> set in_place_layers"
      by blast+
    with h2 n show False
      by simp
  qed
  from ok e ev a ok2 e2 ev2 b show ?thesis
    by blast
qed

text \<open>
  The claim as written promises exactly one aliased node in every chain of a
  convolution, a batch normalization and an activation. For a batch normalization layer
  that declares a softmax activation, the build yields such a chain and the pass
  aliases neither node: the test on the activation kind also skips the batch
  normalization layer, which keeps the kind it declared.
\<close>

theorem inPlaceOptimize_chain_counterexample:
  "map_option
     (map_sum id (\<lambda>(st, g). (st, map (\<lambda>n. ltype (heap g ! layer n)) (Sorted g),
                                sorted_names g, aliased g)))
     (build 3 [0, 1] LOSS_NONE (flat_conv_bn ACT_SOFTMAX))
   = Some (Inr (ML_ERROR_NONE, [''conv2d'', ''batch_normalization'', ''activation''],
                [''conv'', ''bn'', ''bnactivation0''], []))"
  by code_simp

section \<open>Properties of the build: what the result depends on\<close>

text \<open>
  Every pass commutes with a rewrite of the count of leading non-trainable layers and of
  the list of names handed to the manager: no pass before the topological sort reads or
  writes either field.
\<close>

named_theorems commute


lemma with_results_fields [simp]:
  "heap (with_results a b g) = heap g"
  "adj (with_results a b g) = adj g"
  "num_node (with_results a b g) = num_node g"
  "Sorted (with_results a b g) = Sorted g"
  "layer_names (with_results a b g) = layer_names g"
  "def_name_count (with_results a b g) = def_name_count g"
  "aliased (with_results a b g) = aliased g"
  by (simp_all add: with_results_def)

lemma update_commute [commute]:
  "(with_results a b g)\<lparr>def_name_count := c\<rparr> = with_results a b (g\<lparr>def_name_count := c\<rparr>)"
  "(with_results a b g)\<lparr>adj := x\<rparr> = with_results a b (g\<lparr>adj := x\<rparr>)"
  "(with_results a b g)\<lparr>num_node := y\<rparr> = with_results a b (g\<lparr>num_node := y\<rparr>)"
  "(with_results a b g)\<lparr>heap := h\<rparr> = with_results a b (g\<lparr>heap := h\<rparr>)"
  "(with_results a b g)\<lparr>Sorted := s\<rparr> = with_results a b (g\<lparr>Sorted := s\<rparr>)"
  "(with_results a b g)\<lparr>aliased := r\<rparr> = with_results a b (g\<lparr>aliased := r\<rparr>)"
  by (simp_all add: with_results_def)

lemma heap_upd_commute [commute]:
  "heap_upd x f (with_results a b g) = with_results a b (heap_upd x f g)"
  by (simp add: heap_upd_def commute)

lemma alloc_commute [commute]:
  "alloc l (with_results a b g) = map_prod id (with_results a b) (alloc l g)"
  by (simp add: alloc_def commute)

lemma setName_commute [commute]:
  "setName x n (with_results a b g) = with_results a b (setName x n g)"
  by (simp add: setName_def commute)

lemma ensureName_commute [commute]:
  "ensureName x p f (with_results a b g) = with_results a b (ensureName x p f g)"
  by (simp add: ensureName_def Let_def commute)

lemma getLayerNode_commute [commute]:
  "getLayerNode (with_results a b g) u = getLayerNode g u"
  by (simp add: getLayerNode_def)

lemma getLayerNode_name_commute [commute]:
  "getLayerNode_name (with_results a b g) u = getLayerNode_name g u"
  by (simp add: getLayerNode_name_def)

lemma addLayerNode_commute [commute]:
  "addLayerNode x (with_results a b g) = with_results a b (addLayerNode x g)"
  by (simp add: addLayerNode_def Let_def commute)

lemma setLoss_commute [commute]:
  "setLoss x l (with_results a b g) = map_prod id (with_results a b) (setLoss x l g)"
  by (simp add: setLoss_def commute)

lemma lift_results_simps [simp]:
  "lift_results a b (Inl e) = Inl e"
  "lift_results a b (Inr (st, g)) = Inr (st, with_results a b g)"
  by (simp_all add: lift_results_def)

lemma addLossLayer_attach_commute [commute]:
  "addLossLayer_attach l (with_results a b g) = lift_results a b (addLossLayer_attach l g)"
  by (simp add: addLossLayer_attach_def Let_def commute alloc_def split_beta setLoss_def
      split: sum.splits)

lemma addLossLayer_commute [commute]:
  "addLossLayer l (with_results a b g) = lift_results a b (addLossLayer l g)"
  by (simp add: addLossLayer_def Let_def commute split: sum.splits ActivationType.splits)

lemma updateNameInLayers_commute [commute]:
  "updateNameInLayers ls c n (with_results a b g) = with_results a b (updateNameInLayers ls c n g)"
  by (induction ls) (simp_all add: commute split: option.splits)

lemma setOutputLayers_j_commute [commute]:
  "setOutputLayers_j x y xs (with_results a b g) = with_results a b (setOutputLayers_j x y xs g)"
  by (induction xs arbitrary: g) (simp_all add: commute)

lemma setOutputLayers_i_commute [commute]:
  "setOutputLayers_i x ys (with_results a b g) = with_results a b (setOutputLayers_i x ys g)"
  by (induction ys arbitrary: g) (simp_all add: commute)

lemma setOutputLayers_idx_commute [commute]:
  "setOutputLayers_idx ls xs (with_results a b g) = with_results a b (setOutputLayers_idx ls xs g)"
  by (induction xs arbitrary: g) (simp_all add: commute Let_def)

lemma setOutputLayers_commute [commute]:
  "setOutputLayers ls (with_results a b g) = map_sum id (with_results a b) (setOutputLayers ls g)"
proof (cases "ls = []")
  case True
  then show ?thesis by (simp add: setOutputLayers_def)
next
  case False
  define g2 where "g2 g = (let g1 = setOutputLayers_idx ls ls g; z = last ls in
     if num_outputs (heap g1 ! z) = 0
     then heap_upd z
            (\<lambda>l. l\<lparr>num_outputs := 1, output_dim := resize 1 (output_dim l),
                   output_layers := output_layers l @ [''__exit__'']\<rparr>) g1
     else g1)" for g
  have r: "setOutputLayers ls g =
      (if \<exists>x \<in> set ls. length (output_layers (heap (g2 g) ! x)) = 0
       then Inl invalid_argument else Inr (g2 g))" for g
    using False unfolding setOutputLayers_def g2_def Let_def by simp
  have c: "g2 (with_results a b g) = with_results a b (g2 g)"
    unfolding g2_def Let_def by (simp add: commute)
  show ?thesis
    unfolding r c by simp
qed

lemma realizeMultiInputType_commute [commute]:
  "realizeMultiInputType x (with_results a b g)
     = map_prod id (with_results a b) (realizeMultiInputType x g)"
  by (simp add: realizeMultiInputType_def commute Let_def alloc_def)

lemma realizeFlattenType_commute [commute]:
  "realizeFlattenType x ls (with_results a b g)
     = map_prod id (with_results a b) (realizeFlattenType x ls g)"
  by (simp add: realizeFlattenType_def commute Let_def alloc_def)

lemma realizeActivationType_commute [commute]:
  "realizeActivationType x ls (with_results a b g)
     = lift_results a b (realizeActivationType x ls g)"
  by (simp add: realizeActivationType_def commute Let_def alloc_def)

lemma realizeMultiOutputType_loop_commute [commute]:
  "realizeMultiOutputType_loop x c ls xs (with_results a b g)
     = with_results a b (realizeMultiOutputType_loop x c ls xs g)"
  by (induction xs arbitrary: g) (simp_all add: commute Let_def)

lemma realizeMultiOutputType_commute [commute]:
  "realizeMultiOutputType x ls (with_results a b g)
     = map_prod id (with_results a b) (realizeMultiOutputType x ls g)"
  by (simp add: realizeMultiOutputType_def commute Let_def alloc_def)

lemma NN_RETURN_STATUS_commute:
  assumes "\<And>g. f (with_results a b g) = lift_results a b (f g)"
  shows "NN_RETURN_STATUS (lift_results a b r) f = lift_results a b (NN_RETURN_STATUS r f)"
  by (cases r) (auto simp: NN_RETURN_STATUS_def assms)

lemma Inr_lift:
  "Inr (map_prod id (with_results a b) p) = lift_results a b (Inr p)"
  by (cases p) simp

lemma setGraphNode_step_commute [commute]:
  "setGraphNode_step ls x (with_results a b g) = lift_results a b (setGraphNode_step ls x g)"
proof (cases "length (input_layers (heap g ! x)) < 1 \<and> (\<exists>d \<in> set (input_dim (heap g ! x)). d = 0)")
  case True
  then show ?thesis
    by (simp add: setGraphNode_step_def)
next
  case False
  define g1 where "g1 g = (if length (input_layers (heap g ! x)) < 1
      then heap_upd x (\<lambda>l. l\<lparr>num_inputs := 1, input_layers := [''__data__'']\<rparr>) g else g)" for g
  define s4 :: "NetworkGraph \<Rightarrow> exn + (status \<times> NetworkGraph)" where
    "s4 g5 = (if flatten (heap g5 ! x)
      then Inr (realizeFlattenType x ls g5) else Inr (ML_ERROR_NONE, g5))" for g5
  define s3 where "s3 g4 = NN_RETURN_STATUS
      (if ltype (heap g4 ! x) \<noteq> OutputLayer_type
       then Inr (realizeMultiOutputType x ls g4) else Inr (ML_ERROR_NONE, g4)) s4" for g4
  define s2 where "s2 g2 = (let g3 = addLayerNode x g2 in
      NN_RETURN_STATUS
        (if ltype (heap g3 ! x) \<noteq> ActivationLayer_type
         then realizeActivationType x ls g3 else Inr (ML_ERROR_NONE, g3)) s3)" for g2
  define s1 where "s1 g = NN_RETURN_STATUS
      (if ltype (heap (g1 g) ! x) \<noteq> AdditionLayer_type \<and> ltype (heap (g1 g) ! x) \<noteq> ConcatLayer_type
       then Inr (realizeMultiInputType x (g1 g)) else Inr (ML_ERROR_NONE, g1 g)) s2" for g
  have step: "setGraphNode_step ls x g = s1 g"
    if "\<not> (length (input_layers (heap g ! x)) < 1 \<and> (\<exists>d \<in> set (input_dim (heap g ! x)). d = 0))"
    for g
    unfolding setGraphNode_step_def s1_def s2_def s3_def s4_def g1_def Let_def
    by (simp only: if_not_P[OF that])
  have c1: "g1 (with_results a b g) = with_results a b (g1 g)" for g
    unfolding g1_def by (simp add: commute)
  have c4: "s4 (with_results a b g) = lift_results a b (s4 g)" for g
    unfolding s4_def by (simp add: commute Inr_lift)
  have c3: "s3 (with_results a b g) = lift_results a b (s3 g)" for g
  proof -
    have "(if ltype (heap g ! x) \<noteq> OutputLayer_type
       then Inr (realizeMultiOutputType x ls (with_results a b g))
       else Inr (ML_ERROR_NONE, with_results a b g))
      = lift_results a b (if ltype (heap g ! x) \<noteq> OutputLayer_type
       then Inr (realizeMultiOutputType x ls g) else Inr (ML_ERROR_NONE, g))"
      by (simp add: commute Inr_lift)
    then show ?thesis
      unfolding s3_def with_results_fields
      by (simp only: NN_RETURN_STATUS_commute[of s4 a b, OF c4])
  qed
  have c2: "s2 (with_results a b g) = lift_results a b (s2 g)" for g
  proof -
    let ?g3 = "addLayerNode x g"
    have "(if ltype (heap ?g3 ! x) \<noteq> ActivationLayer_type
         then realizeActivationType x ls (with_results a b ?g3)
         else Inr (ML_ERROR_NONE, with_results a b ?g3))
      = lift_results a b (if ltype (heap ?g3 ! x) \<noteq> ActivationLayer_type
         then realizeActivationType x ls ?g3 else Inr (ML_ERROR_NONE, ?g3))"
      by (simp add: commute)
    then show ?thesis
      unfolding s2_def Let_def addLayerNode_commute with_results_fields
      by (simp only: NN_RETURN_STATUS_commute[of s3 a b, OF c3])
  qed
  have c0: "s1 (with_results a b g) = lift_results a b (s1 g)"
  proof -
    have "(if ltype (heap (g1 g) ! x) \<noteq> AdditionLayer_type \<and> ltype (heap (g1 g) ! x) \<noteq> ConcatLayer_type
       then Inr (realizeMultiInputType x (with_results a b (g1 g)))
       else Inr (ML_ERROR_NONE, with_results a b (g1 g)))
      = lift_results a b (if ltype (heap (g1 g) ! x) \<noteq> AdditionLayer_type
            \<and> ltype (heap (g1 g) ! x) \<noteq> ConcatLayer_type
       then Inr (realizeMultiInputType x (g1 g)) else Inr (ML_ERROR_NONE, g1 g))"
      by (simp add: commute Inr_lift)
    then show ?thesis
      unfolding s1_def c1 with_results_fields
      by (simp only: NN_RETURN_STATUS_commute[of s2 a b, OF c2])
  qed
  show ?thesis
    using False by (simp add: step c0)
qed

lemma setGraphNode_loop_commute [commute]:
  "setGraphNode_loop ls xs (with_results a b g) = lift_results a b (setGraphNode_loop ls xs g)"
proof (induction xs arbitrary: g)
  case Nil
  then show ?case by simp
next
  case (Cons x xs)
  show ?case
    by (simp add: commute NN_RETURN_STATUS_commute[of "setGraphNode_loop ls xs" a b, OF Cons.IH])
qed

lemma setGraphNode_commute [commute]:
  "setGraphNode ls k (with_results a b g) = lift_results a b (setGraphNode ls k g)"
proof (cases "setOutputLayers ls g")
  case (Inl e)
  then show ?thesis by (simp add: setGraphNode_def commute)
next
  case (Inr g1)
  define t where "t g2 = (if ltype (heap g2 ! last ls) \<noteq> LossLayer_type \<and> k \<noteq> LOSS_NONE
      then NN_RETURN_STATUS (addLossLayer k g2) (\<lambda>g3. Inr (ML_ERROR_NONE, g3))
      else Inr (ML_ERROR_NONE, g2))" for g2
  have c3: "(\<lambda>g3. Inr (ML_ERROR_NONE, g3) :: exn + (status \<times> NetworkGraph)) (with_results a b g)
      = lift_results a b ((\<lambda>g3. Inr (ML_ERROR_NONE, g3)) g)" for g
    by simp
  have ct: "t (with_results a b g) = lift_results a b (t g)" for g
    unfolding t_def by (simp add: commute NN_RETURN_STATUS_commute[of "\<lambda>g3. Inr (ML_ERROR_NONE, g3)" a b, OF c3])
  have "setGraphNode ls k g = NN_RETURN_STATUS (setGraphNode_loop ls ls g1) t"
    using Inr unfolding setGraphNode_def t_def by simp
  moreover have "setGraphNode ls k (with_results a b g)
      = NN_RETURN_STATUS (setGraphNode_loop ls ls (with_results a b g1)) t"
    using Inr unfolding setGraphNode_def t_def by (simp add: commute)
  ultimately show ?thesis
    by (simp add: commute NN_RETURN_STATUS_commute[of t a b, OF ct])
qed

lemma addEdge_commute [commute]:
  "addEdge i n (with_results a b g) = map_sum id (with_results a b) (addEdge i n g)"
  by (simp add: addEdge_def commute)

lemma setEdge_inputs_commute [commute]:
  "setEdge_inputs n xs (with_results a b g) = map_sum id (with_results a b) (setEdge_inputs n xs g)"
  by (induction xs arbitrary: g) (auto simp: commute split: sum.splits)

lemma setEdge_loop_commute [commute]:
  "setEdge_loop i k (with_results a b g) = map_sum id (with_results a b) (setEdge_loop i k g)"
  by (induction k arbitrary: i g) (auto simp: commute split: sum.splits list.splits)

lemma setEdge_commute [commute]:
  "setEdge (with_results a b g) = map_sum id (with_results a b) (setEdge g)"
  by (simp add: setEdge_def commute)

text \<open>
  The depth-first visit does not read the two fields, and more fuel does not change a
  result that was reached.
\<close>

lemma util_commute:
  "topologicalSortUtil f (with_results a b g) ith st = topologicalSortUtil f g ith st"
  "topologicalSortUtil_loop f (with_results a b g) ns st = topologicalSortUtil_loop f g ns st"
proof (induction f g ith st and f g ns st
    rule: topologicalSortUtil_topologicalSortUtil_loop.induct)
  case (1 g ith st)
  show ?case by simp
next
  case (2 f g ith visited Stack)
  show ?case
  proof (cases "length visited \<le> ith \<or> length (adj g) \<le> ith")
    case True
    then show ?thesis by simp
  next
    case False
    with "2.IH" have "topologicalSortUtil_loop f (with_results a b g) (adj g ! ith) (visited[ith := True], Stack)
        = topologicalSortUtil_loop f g (adj g ! ith) (visited[ith := True], Stack)"
      by simp
    with False show ?thesis
      by (simp add: getLayerNode_commute split: option.splits sum.splits)
  qed
next
  case (3 f g st)
  show ?case by simp
next
  case (4 f g n ns visited Stack)
  show ?case
  proof (cases "length visited \<le> index n")
    case True
    then show ?thesis by simp
  next
    case False
    note rng = this
    show ?thesis
    proof (cases "visited ! index n")
      case True
      with rng "4.IH"(3) show ?thesis by simp
    next
      case False
      with rng "4.IH"(1) have u: "topologicalSortUtil f (with_results a b g) (index n) (visited, Stack)
          = topologicalSortUtil f g (index n) (visited, Stack)"
        by simp
      show ?thesis
      proof (cases "topologicalSortUtil f g (index n) (visited, Stack)")
        case None
        with rng False u show ?thesis by simp
      next
        case (Some r)
        show ?thesis
        proof (cases r)
          case (Inl e)
          with Some rng False u show ?thesis by simp
        next
          case (Inr st')
          with Some rng False "4.IH"(2)[of "Inr st'" st']
          have "topologicalSortUtil_loop f (with_results a b g) ns st'
              = topologicalSortUtil_loop f g ns st'"
            by simp
          with Inr Some rng False u show ?thesis by simp
        qed
      qed
    qed
  qed
qed

lemma topologicalSort_loop_commute:
  "topologicalSort_loop f (with_results a b g) i k st = topologicalSort_loop f g i k st"
  by (induction f g i k st rule: topologicalSort_loop.induct)
     (auto simp: util_commute split: option.splits sum.splits)

lemma util_fuel:
  "topologicalSortUtil f g ith st = Some r \<Longrightarrow> topologicalSortUtil (f + k) g ith st = Some r"
  "topologicalSortUtil_loop f g ns st = Some r \<Longrightarrow> topologicalSortUtil_loop (f + k) g ns st = Some r"
proof (induction f g ith st and f g ns st arbitrary: r and r
    rule: topologicalSortUtil_topologicalSortUtil_loop.induct)
  case (1 g ith st)
  then show ?case by simp
next
  case (2 f g ith visited Stack)
  show ?case
  proof (cases "length visited \<le> ith \<or> length (adj g) \<le> ith")
    case True
    with "2.prems" show ?thesis by simp
  next
    case False
    with "2.prems" obtain r' where
      l: "topologicalSortUtil_loop f g (adj g ! ith) (visited[ith := True], Stack) = Some r'"
      by (cases "topologicalSortUtil_loop f g (adj g ! ith) (visited[ith := True], Stack)") auto
    have "topologicalSortUtil_loop (f + k) g (adj g ! ith) (visited[ith := True], Stack) = Some r'"
      using False l by (intro "2.IH") simp_all
    with "2.prems" False l show ?thesis
      by simp
  qed
next
  case (3 f g st)
  then show ?case by simp
next
  case (4 f g n ns visited Stack)
  show ?case
  proof (cases "length visited \<le> index n")
    case True
    with "4.prems" show ?thesis by simp
  next
    case False
    note rng = this
    show ?thesis
    proof (cases "visited ! index n")
      case True
      with rng "4.prems" have "topologicalSortUtil_loop f g ns (visited, Stack) = Some r"
        by simp
      then have "topologicalSortUtil_loop (f + k) g ns (visited, Stack) = Some r"
        using rng True by (intro "4.IH"(3)) simp_all
      with rng True show ?thesis by simp
    next
      case False
      with rng "4.prems" obtain r1 where
        u: "topologicalSortUtil f g (index n) (visited, Stack) = Some r1"
        by (cases "topologicalSortUtil f g (index n) (visited, Stack)") auto
      have u': "topologicalSortUtil (f + k) g (index n) (visited, Stack) = Some r1"
        using rng False u by (intro "4.IH"(1)) simp_all
      show ?thesis
      proof (cases r1)
        case (Inl e)
        with rng False u "4.prems" have "r = Inl e" by simp
        with Inl rng False u' show ?thesis by simp
      next
        case (Inr st')
        with rng False u "4.prems" have "topologicalSortUtil_loop f g ns st' = Some r"
          by simp
        then have "topologicalSortUtil_loop (f + k) g ns st' = Some r"
          using rng False u Inr by (intro "4.IH"(2)) simp_all
        with Inr rng False u' show ?thesis by simp
      qed
    qed
  qed
qed

lemma topologicalSort_loop_fuel:
  "topologicalSort_loop f g i n st = Some r \<Longrightarrow> topologicalSort_loop (f + k) g i n st = Some r"
proof (induction f g i n st arbitrary: r rule: topologicalSort_loop.induct)
  case (1 f g i st)
  then show ?case by simp
next
  case (2 f g i n visited Stack)
  show ?case
  proof (cases "length visited \<le> i")
    case True
    with "2.prems" show ?thesis by simp
  next
    case False
    note rng = this
    show ?thesis
    proof (cases "visited ! i")
      case True
      with rng "2.prems" have "topologicalSort_loop f g (Suc i) n (visited, Stack) = Some r"
        by simp
      then have "topologicalSort_loop (f + k) g (Suc i) n (visited, Stack) = Some r"
        using rng True by (intro "2.IH"(2)) simp_all
      with rng True show ?thesis by simp
    next
      case False
      with rng "2.prems" obtain r1 where
        u: "topologicalSortUtil f g i (visited, Stack) = Some r1"
        by (cases "topologicalSortUtil f g i (visited, Stack)") auto
      note u' = util_fuel(1)[OF u, of k]
      show ?thesis
      proof (cases r1)
        case (Inl e)
        with rng False u "2.prems" have "r = Inl e" by simp
        with Inl rng False u' show ?thesis by simp
      next
        case (Inr st')
        with rng False u "2.prems" have "topologicalSort_loop f g (Suc i) n st' = Some r"
          by simp
        then have "topologicalSort_loop (f + k) g (Suc i) n st' = Some r"
          using rng False u Inr by (intro "2.IH"(1)) simp_all
        with Inr rng False u' show ?thesis by simp
      qed
    qed
  qed
qed

lemma topologicalSort_fuel_independent:
  assumes "topologicalSort f1 g = Some r1" "topologicalSort f2 g = Some r2"
  shows "r1 = r2"
proof -
  let ?st = "(replicate (num_node g) False, [])"
  from assms(1) obtain x1 where x1: "topologicalSort_loop f1 g 0 (num_node g) ?st = Some x1"
    by (auto simp: topologicalSort_def split: option.splits)
  from assms(2) obtain x2 where x2: "topologicalSort_loop f2 g 0 (num_node g) ?st = Some x2"
    by (auto simp: topologicalSort_def split: option.splits)
  have "topologicalSort_loop (f1 + f2) g 0 (num_node g) ?st = Some x1"
    using topologicalSort_loop_fuel[OF x1, of f2] .
  moreover have "topologicalSort_loop (f2 + f1) g 0 (num_node g) ?st = Some x2"
    using topologicalSort_loop_fuel[OF x2, of f1] .
  ultimately have "x1 = x2"
    by (simp add: add.commute)
  with assms x1 x2 show ?thesis
    by (simp add: topologicalSort_def)
qed

text \<open>
  The in-place pass and the topological sort take graphs that agree on the other fields to
  results that agree on them.
\<close>

lemma same_core_with_results: "same_core g (with_results a b g)"
  by (simp add: same_core_def with_results_def)

lemma same_core_fields:
  assumes "same_core g1 g2"
  shows "heap g1 = heap g2" "adj g1 = adj g2" "num_node g1 = num_node g2"
    "Sorted g1 = Sorted g2" "layer_names g1 = layer_names g2"
    "def_name_count g1 = def_name_count g2" "aliased g1 = aliased g2"
proof -
  from assms have eq: "with_results 0 [] g1 = with_results 0 [] g2"
    by (simp add: same_core_def)
  from arg_cong[OF eq, of heap] show "heap g1 = heap g2" by simp
  from arg_cong[OF eq, of adj] show "adj g1 = adj g2" by simp
  from arg_cong[OF eq, of num_node] show "num_node g1 = num_node g2" by simp
  from arg_cong[OF eq, of Sorted] show "Sorted g1 = Sorted g2" by simp
  from arg_cong[OF eq, of layer_names] show "layer_names g1 = layer_names g2" by simp
  from arg_cong[OF eq, of def_name_count] show "def_name_count g1 = def_name_count g2" by simp
  from arg_cong[OF eq, of aliased] show "aliased g1 = aliased g2" by simp
qed

lemma same_core_iff:
  "same_core g1 g2 \<longleftrightarrow> g2 = with_results (skip_non_trainable_layers g2) (untracked g2) g1"
  by (cases g1; cases g2) (auto simp: same_core_def with_results_def)

lemma same_coreI:
  assumes "heap g1 = heap g2" "adj g1 = adj g2" "num_node g1 = num_node g2"
    "Sorted g1 = Sorted g2" "layer_names g1 = layer_names g2"
    "def_name_count g1 = def_name_count g2" "aliased g1 = aliased g2"
  shows "same_core g1 g2"
  using assms by (cases g1; cases g2) (simp add: same_core_def with_results_def)

lemma same_core_view:
  assumes "same_core g1 g2"
  shows "sorted_names g1 = sorted_names g2" "aliased g1 = aliased g2"
  using same_core_fields[OF assms] by (simp_all add: sorted_names_def)

lemma inPlaceOptimize_loop_same_core:
  "same_core g1 g2 \<Longrightarrow>
     rel_sum (=) same_core (inPlaceOptimize_loop t ns g1) (inPlaceOptimize_loop t ns g2)"
proof (induction ns arbitrary: g1 g2)
  case Nil
  then show ?case by simp
next
  case (Cons n ns)
  note f = same_core_fields[OF Cons.prems]
  have eq: "inPlaceOptimize_node t g2 n = inPlaceOptimize_node t g1 n"
    using f by (intro inPlaceOptimize_node_cong) simp_all
  show ?case
  proof (cases "inPlaceOptimize_node t g1 n")
    case (Inl e)
    with eq show ?thesis by simp
  next
    case (Inr o1)
    show ?thesis
    proof (cases o1)
      case None
      with Inr eq Cons.IH[OF Cons.prems] show ?thesis by simp
    next
      case (Some r)
      let ?h1 = "g1\<lparr>aliased := aliased g1 @ [r],
               untracked := untracked g1 @ [name (heap g1 ! layer (a_prev r))]\<rparr>"
      let ?h2 = "g2\<lparr>aliased := aliased g2 @ [r],
               untracked := untracked g2 @ [name (heap g2 ! layer (a_prev r))]\<rparr>"
      have "same_core ?h1 ?h2"
        using f by (intro same_coreI) simp_all
      from Cons.IH[OF this] Inr Some eq show ?thesis by simp
    qed
  qed
qed

lemma inPlaceOptimize_type_same_core:
  "same_core g1 g2 \<Longrightarrow>
     rel_sum (=) same_core (inPlaceOptimize_type t g1) (inPlaceOptimize_type t g2)"
  using inPlaceOptimize_loop_same_core[of g1 g2 t "Sorted g1"] same_core_fields(4)[of g1 g2]
  by (simp add: inPlaceOptimize_type_def)

lemma inPlaceOptimize_types_same_core:
  "same_core g1 g2 \<Longrightarrow>
     rel_sum (=) same_core (inPlaceOptimize_types ts g1) (inPlaceOptimize_types ts g2)"
proof (induction ts arbitrary: g1 g2)
  case Nil
  then show ?case by simp
next
  case (Cons t ts)
  from inPlaceOptimize_type_same_core[OF Cons.prems, of t] Cons.IH show ?case
    by (cases "inPlaceOptimize_type t g1"; cases "inPlaceOptimize_type t g2") simp_all
qed

lemma inPlaceOptimize_same_core:
  "same_core g1 g2 \<Longrightarrow> rel_sum (=) same_core (inPlaceOptimize g1) (inPlaceOptimize g2)"
  by (simp add: inPlaceOptimize_def inPlaceOptimize_types_same_core)

lemma topologicalSort_same_core:
  assumes "same_core g1 g2"
    "topologicalSort f1 g1 = Some r1" "topologicalSort f2 g2 = Some r2"
  shows "rel_sum (=) same_core r1 r2"
proof -
  define a b where "a = skip_non_trainable_layers g2" and "b = untracked g2"
  from assms(1) have g2: "g2 = with_results a b g1"
    unfolding a_def b_def by (simp add: same_core_iff)
  let ?st = "(replicate (num_node g1) False, [])"
  from assms(2) obtain x1 where x1: "topologicalSort_loop f1 g1 0 (num_node g1) ?st = Some x1"
    by (auto simp: topologicalSort_def split: option.splits)
  from assms(3) obtain x2 where x2: "topologicalSort_loop f2 g1 0 (num_node g1) ?st = Some x2"
    by (auto simp: topologicalSort_def g2 topologicalSort_loop_commute split: option.splits)
  have "topologicalSort_loop (f1 + f2) g1 0 (num_node g1) ?st = Some x1"
    using topologicalSort_loop_fuel[OF x1, of f2] .
  moreover have "topologicalSort_loop (f2 + f1) g1 0 (num_node g1) ?st = Some x2"
    using topologicalSort_loop_fuel[OF x2, of f1] .
  ultimately have x: "x2 = x1"
    by (simp add: add.commute)
  have l2: "topologicalSort_loop f2 g2 0 (num_node g2) (replicate (num_node g2) False, []) = Some x1"
    using x2 by (simp add: g2 topologicalSort_loop_commute x)
  show ?thesis
  proof (cases x1)
    case (Inl e)
    from assms(2) have "r1 = Inl e"
      by (simp add: topologicalSort_def x1[unfolded Inl])
    moreover from assms(3) have "r2 = Inl e"
      by (simp add: topologicalSort_def l2[unfolded Inl])
    ultimately show ?thesis by simp
  next
    case (Inr st)
    obtain visited Stack where st: "st = (visited, Stack)"
      by (cases st)
    from assms(2)
    have r1: "r1 = Inr (countNonTrainableLayersAtBegin (g1\<lparr>Sorted := Sorted g1 @ Stack\<rparr>))"
      by (simp add: topologicalSort_def x1[unfolded Inr st])
    from assms(3)
    have r2: "r2 = Inr (countNonTrainableLayersAtBegin (g2\<lparr>Sorted := Sorted g2 @ Stack\<rparr>))"
      by (simp add: topologicalSort_def l2[unfolded Inr st])
    have "same_core (countNonTrainableLayersAtBegin (g1\<lparr>Sorted := Sorted g1 @ Stack\<rparr>))
        (countNonTrainableLayersAtBegin (g2\<lparr>Sorted := Sorted g2 @ Stack\<rparr>))"
      using same_core_fields[OF assms(1)]
      by (intro same_coreI) (simp_all add: countNonTrainableLayersAtBegin_def)
    with r1 r2 show ?thesis by simp
  qed
qed

lemma build_view_same_core:
  "same_core g1 g2 \<Longrightarrow> build_view (Inr (st, g1)) = build_view (Inr (st, g2))"
  by (simp add: build_view_def same_core_view)

lemma build_same_core:
  assumes "same_core g1 g2"
    "build f1 layers loss_kind g1 = Some r1" "build f2 layers loss_kind g2 = Some r2"
  shows "build_view r1 = build_view r2"
proof -
  define a b where "a = skip_non_trainable_layers g2" and "b = untracked g2"
  from assms(1) have g2: "g2 = with_results a b g1"
    unfolding a_def b_def by (simp add: same_core_iff)
  have sg: "setGraphNode layers loss_kind g2 = lift_results a b (setGraphNode layers loss_kind g1)"
    unfolding g2 by (rule setGraphNode_commute)
  show ?thesis
  proof (cases "setGraphNode layers loss_kind g1")
    case (Inl e)
    have s2: "setGraphNode layers loss_kind g2 = Inl e"
      by (simp add: sg Inl)
    from assms(2) have "r1 = Inl e" by (simp add: build_def Inl)
    moreover from assms(3) have "r2 = Inl e" by (simp add: build_def s2)
    ultimately show ?thesis by simp
  next
    case (Inr p)
    obtain st h1 where p: "p = (st, h1)" by (cases p)
    note s1 = Inr[unfolded p]
    have s2: "setGraphNode layers loss_kind g2 = Inr (st, with_results a b h1)"
      by (simp add: sg s1)
    show ?thesis
    proof (cases "st = ML_ERROR_NONE")
      case False
      from assms(2) False have "r1 = Inr (st, h1)"
        by (simp add: build_def s1)
      moreover from assms(3) False have "r2 = Inr (st, with_results a b h1)"
        by (simp add: build_def s2)
      ultimately show ?thesis
        using build_view_same_core[OF same_core_with_results[of h1 a b], of st] by simp
    next
      case True
      have se: "setEdge (with_results a b h1) = map_sum id (with_results a b) (setEdge h1)"
        by (rule setEdge_commute)
      show ?thesis
      proof (cases "setEdge h1")
        case (Inl e)
        have se2: "setEdge (with_results a b h1) = Inl e"
          by (simp add: se Inl)
        from assms(2) have "r1 = Inl e" by (simp add: build_def s1 True Inl)
        moreover from assms(3) have "r2 = Inl e" by (simp add: build_def s2 True se2)
        ultimately show ?thesis by simp
      next
        case (Inr h2)
        have se2: "setEdge (with_results a b h1) = Inr (with_results a b h2)"
          by (simp add: se Inr)
        from assms(2) have b1:
          "(case topologicalSort f1 h2 of None \<Rightarrow> None | Some (Inl e) \<Rightarrow> Some (Inl e)
            | Some (Inr g3) \<Rightarrow> (case inPlaceOptimize g3 of Inl e \<Rightarrow> Some (Inl e)
                 | Inr g4 \<Rightarrow> Some (Inr (ML_ERROR_NONE, g4)))) = Some r1"
          by (simp add: build_def s1 True Inr)
        from assms(3) have b2:
          "(case topologicalSort f2 (with_results a b h2) of None \<Rightarrow> None
            | Some (Inl e) \<Rightarrow> Some (Inl e)
            | Some (Inr g3) \<Rightarrow> (case inPlaceOptimize g3 of Inl e \<Rightarrow> Some (Inl e)
                 | Inr g4 \<Rightarrow> Some (Inr (ML_ERROR_NONE, g4)))) = Some r2"
          by (simp add: build_def s2 True se2)
        from b1 obtain t1 where t1: "topologicalSort f1 h2 = Some t1"
          by (cases "topologicalSort f1 h2") simp_all
        from b2 obtain t2 where t2: "topologicalSort f2 (with_results a b h2) = Some t2"
          by (cases "topologicalSort f2 (with_results a b h2)") simp_all
        note rel = topologicalSort_same_core[OF same_core_with_results t1 t2]
        show ?thesis
        proof (cases t1)
          case (Inl e)
          with rel have t2': "t2 = Inl e" by (cases t2) simp_all
          from b1 have "r1 = Inl e" by (simp add: t1[unfolded Inl])
          moreover from b2 have "r2 = Inl e" by (simp add: t2[unfolded t2'])
          ultimately show ?thesis by simp
        next
          case (Inr g3)
          with rel obtain g3' where t2': "t2 = Inr g3'" and sc: "same_core g3 g3'"
            by (cases t2) simp_all
          note rel2 = inPlaceOptimize_same_core[OF sc]
          show ?thesis
          proof (cases "inPlaceOptimize g3")
            case (Inl e)
            with rel2 have i2: "inPlaceOptimize g3' = Inl e"
              by (cases "inPlaceOptimize g3'") simp_all
            from b1 have "r1 = Inl e" by (simp add: t1[unfolded Inr] Inl)
            moreover from b2 have "r2 = Inl e" by (simp add: t2[unfolded t2'] i2)
            ultimately show ?thesis by simp
          next
            case i1: (Inr g4)
            with rel2 obtain g4' where i2: "inPlaceOptimize g3' = Inr g4'"
              and sc4: "same_core g4 g4'"
              by (cases "inPlaceOptimize g3'") simp_all
            from b1 have "r1 = Inr (ML_ERROR_NONE, g4)" by (simp add: t1[unfolded Inr] i1)
            moreover from b2 have "r2 = Inr (ML_ERROR_NONE, g4')"
              by (simp add: t2[unfolded t2'] i2)
            ultimately show ?thesis
              using build_view_same_core[OF sc4] by simp
          qed
        qed
      qed
    qed
  qed
qed

lemma topologicalSort_None_commute:
  "(topologicalSort f (with_results a b g) = None) = (topologicalSort f g = None)"
  by (simp add: topologicalSort_def topologicalSort_loop_commute
      split: option.splits sum.splits prod.splits)

lemma build_None_iff:
  "build f layers loss_kind g = None \<longleftrightarrow>
     (\<exists>h1 h2. setGraphNode layers loss_kind g = Inr (ML_ERROR_NONE, h1)
        \<and> setEdge h1 = Inr h2 \<and> topologicalSort f h2 = None)"
  by (auto simp: build_def split: sum.splits option.splits)

lemma build_None_commute:
  assumes "build f layers loss_kind g = None"
  shows "build f layers loss_kind (with_results a b g) = None"
proof -
  from assms obtain h1 h2 where
    s: "setGraphNode layers loss_kind g = Inr (ML_ERROR_NONE, h1)"
    and e: "setEdge h1 = Inr h2" and t: "topologicalSort f h2 = None"
    unfolding build_None_iff by blast
  have "setGraphNode layers loss_kind (with_results a b g) = Inr (ML_ERROR_NONE, with_results a b h1)"
    by (simp add: setGraphNode_commute s)
  moreover have "setEdge (with_results a b h1) = Inr (with_results a b h2)"
    by (simp add: setEdge_commute e)
  moreover have "topologicalSort f (with_results a b h2) = None"
    by (simp add: topologicalSort_None_commute t)
  ultimately show ?thesis
    unfolding build_None_iff by blast
qed

lemma build_None_same_core:
  assumes "same_core g1 g2" "build f layers loss_kind g1 = None"
  shows "build f layers loss_kind g2 = None"
proof -
  from assms(1) have "g2 = with_results (skip_non_trainable_layers g2) (untracked g2) g1"
    by (simp add: same_core_iff)
  with build_None_commute[OF assms(2)] show ?thesis
    by metis
qed

lemma same_core_sym: "same_core g1 g2 \<Longrightarrow> same_core g2 g1"
  by (simp add: same_core_def)

lemma build_same_fuel:
  assumes "same_core g1 g2"
  shows "map_option build_view (build f layers loss_kind g1)
     = map_option build_view (build f layers loss_kind g2)"
proof (cases "build f layers loss_kind g1")
  case None
  with build_None_same_core[OF assms None] show ?thesis by simp
next
  case s1: (Some r1)
  show ?thesis
  proof (cases "build f layers loss_kind g2")
    case None
    from build_None_same_core[OF same_core_sym[OF assms] None] s1 show ?thesis by simp
  next
    case (Some r2)
    from build_same_core[OF assms s1 Some] s1 Some show ?thesis by simp
  qed
qed



end
